theory Spec2Isabelle
  imports
    Main
    "HOL-Library.Product_Lexorder"
    "HOL-Library.List_Lexorder"
    "HOL-Library.Char_ord"
    "HOL-Library.Multiset"
begin

section \<open>Data model (models.py)\<close>

text \<open>
  Python integers are unbounded, so every minute value is an \<open>int\<close>. A Python \<open>str\<close> is a
  \<open>string\<close> whose characters stand for the code points 0..255. Fields are prefixed with
  the class they belong to (\<open>fb\<close> FixedBlock, \<open>ft\<close> FlexibleTask, \<open>st\<close> ScheduledTask,
  \<open>ts\<close> TimelineSlot, \<open>req\<close> DayScheduleRequest, \<open>resp\<close> TimelineResponse, \<open>iv\<close> Interval).
\<close>

definition MINUTES_PER_DAY :: int where
  "MINUTES_PER_DAY = 24 * 60"

record FixedBlock =
  fb_id :: string
  fb_title :: string
  fb_start_minute :: int
  fb_end_minute :: int

record FlexibleTask =
  ft_id :: string
  ft_title :: string
  ft_duration_minutes :: int
  ft_priority :: int
  ft_category :: string

record DayScheduleRequest =
  req_fixed_blocks :: "FixedBlock list"
  req_flexible_tasks :: "FlexibleTask list"
  req_transition_buffer_minutes :: int

record ScheduledTask =
  st_id :: string
  st_title :: string
  st_category :: string
  st_priority :: int
  st_start_minute :: int
  st_end_minute :: int

datatype SlotType = Fixed | Task | Free

record TimelineSlot =
  ts_slot_type :: SlotType
  ts_id :: string
  ts_title :: string
  ts_start_minute :: int
  ts_end_minute :: int
  ts_category :: "string option"
  ts_priority :: "int option"

record TimelineResponse =
  resp_day_start_minute :: int
  resp_day_end_minute :: int
  resp_transition_buffer_minutes :: int
  resp_timeline :: "TimelineSlot list"
  resp_scheduled_tasks :: "ScheduledTask list"
  resp_unscheduled_tasks :: "FlexibleTask list"

text \<open>
  The two ways the engine can raise: the \<open>ValueError\<close> of the overlap check, carrying its
  message, and the validation error that constructing a \<open>TimelineSlot\<close> with a field out
  of its declared range raises.
\<close>

datatype error = ValueError string | ValidationError

text \<open>The field constraints of the input models, which hold of every object the engine receives.\<close>

definition FixedBlock_valid :: "FixedBlock \<Rightarrow> bool" where
  "FixedBlock_valid b \<longleftrightarrow>
     1 \<le> length (fb_id b) \<and> length (fb_id b) \<le> 120 \<and>
     1 \<le> length (fb_title b) \<and> length (fb_title b) \<le> 120 \<and>
     0 \<le> fb_start_minute b \<and> fb_start_minute b < MINUTES_PER_DAY \<and>
     0 < fb_end_minute b \<and> fb_end_minute b \<le> MINUTES_PER_DAY \<and>
     \<not> fb_end_minute b \<le> fb_start_minute b"

definition FlexibleTask_valid :: "FlexibleTask \<Rightarrow> bool" where
  "FlexibleTask_valid t \<longleftrightarrow>
     1 \<le> length (ft_id t) \<and> length (ft_id t) \<le> 120 \<and>
     1 \<le> length (ft_title t) \<and> length (ft_title t) \<le> 120 \<and>
     0 < ft_duration_minutes t \<and> ft_duration_minutes t \<le> MINUTES_PER_DAY \<and>
     1 \<le> ft_priority t \<and> ft_priority t \<le> 3 \<and>
     1 \<le> length (ft_category t) \<and> length (ft_category t) \<le> 80"

definition DayScheduleRequest_valid :: "DayScheduleRequest \<Rightarrow> bool" where
  "DayScheduleRequest_valid r \<longleftrightarrow>
     list_all FixedBlock_valid (req_fixed_blocks r) \<and>
     list_all FlexibleTask_valid (req_flexible_tasks r) \<and>
     0 \<le> req_transition_buffer_minutes r \<and> req_transition_buffer_minutes r \<le> 120"

text \<open>
  \<open>TimelineSlot(...)\<close>: the constructor checks \<open>start_minute\<close> (ge 0, lt 1440) and
  \<open>end_minute\<close> (gt 0, le 1440) and raises when one of them fails.
\<close>

definition TimelineSlot_new :: "TimelineSlot \<Rightarrow> error + TimelineSlot" where
  "TimelineSlot_new s =
     (if 0 \<le> ts_start_minute s \<and> ts_start_minute s < MINUTES_PER_DAY \<and>
         0 < ts_end_minute s \<and> ts_end_minute s \<le> MINUTES_PER_DAY
      then Inr s else Inl ValidationError)"

section \<open>Python built-ins the engine uses\<close>

text \<open>\<open>str(n)\<close> for an integer, as the f-string of a free slot's id formats it.\<close>

definition digit_char :: "nat \<Rightarrow> char" where
  "digit_char d = char_of (48 + d)"

fun str_nat :: "nat \<Rightarrow> string" where
  "str_nat n = (if n < 10 then [digit_char n] else str_nat (n div 10) @ [digit_char (n mod 10)])"

definition str_int :: "int \<Rightarrow> string" where
  "str_int i = (if i < 0 then CHR ''-'' # str_nat (nat (- i)) else str_nat (nat i))"

text \<open>\<open>str.lower()\<close> on the code points 0..255: A-Z and the capital letters of Latin-1.\<close>

definition lower_char :: "char \<Rightarrow> char" where
  "lower_char c =
     (let n = (of_char c :: nat)
      in if (65 \<le> n \<and> n \<le> 90) \<or> (192 \<le> n \<and> n \<le> 222 \<and> n \<noteq> 215)
         then char_of (n + 32) else c)"

definition lower :: "string \<Rightarrow> string" where
  "lower s = map lower_char s"

section \<open>The engine (engine.py)\<close>

record Interval =
  iv_start :: int
  iv_end :: int

definition duration :: "Interval \<Rightarrow> int" where
  "duration iv = iv_end iv - iv_start iv"

subsection \<open>Fixed-block validation\<close>

definition overlap_message :: "FixedBlock \<Rightarrow> FixedBlock \<Rightarrow> string" where
  "overlap_message prev_block curr_block =
     ''Fixed blocks overlap: '' @ [CHR 0x27] @ fb_id prev_block @ [CHR 0x27] @ '' and '' @
       [CHR 0x27] @ fb_id curr_block @ [CHR 0x27]"

text \<open>The loop over \<open>idx\<close> in \<open>range(1, len(sorted_blocks))\<close>: the first overlapping adjacent pair raises.\<close>

fun check_adjacent :: "FixedBlock list \<Rightarrow> error option" where
  "check_adjacent (prev_block # curr_block # rest) =
     (if fb_start_minute curr_block < fb_end_minute prev_block
      then Some (ValueError (overlap_message prev_block curr_block))
      else check_adjacent (curr_block # rest))"
| "check_adjacent _ = None"

definition fixed_block_key :: "FixedBlock \<Rightarrow> int \<times> int" where
  "fixed_block_key block = (fb_start_minute block, fb_end_minute block)"

definition sorted_non_overlapping_fixed_blocks :: "FixedBlock list \<Rightarrow> error + FixedBlock list" where
  "sorted_non_overlapping_fixed_blocks blocks =
     (let sorted_blocks = sort_key fixed_block_key blocks
      in case check_adjacent sorted_blocks of
           Some e \<Rightarrow> Inl e
         | None \<Rightarrow> Inr sorted_blocks)"

subsection \<open>Gap computation\<close>

definition interval_key :: "Interval \<Rightarrow> int \<times> int" where
  "interval_key item = (iv_start item, iv_end item)"

text \<open>
  The loop of \<open>_merge_intervals\<close> over \<open>sorted_intervals[1:]\<close>; \<open>merged\<close> is never empty
  there, and \<open>merged[-1] = ...\<close> replaces its last element.
\<close>

fun merge_loop :: "Interval list \<Rightarrow> Interval list \<Rightarrow> Interval list" where
  "merge_loop merged [] = merged"
| "merge_loop merged (current # rest) =
     (let last_iv = last merged
      in if iv_start current \<le> iv_end last_iv
         then merge_loop
                (butlast merged @
                   [\<lparr>iv_start = iv_start last_iv, iv_end = max (iv_end last_iv) (iv_end current)\<rparr>])
                rest
         else merge_loop (merged @ [current]) rest)"

definition merge_intervals :: "Interval list \<Rightarrow> Interval list" where
  "merge_intervals intervals =
     (case sort_key interval_key intervals of
        [] \<Rightarrow> []
      | first # others \<Rightarrow> merge_loop [first] others)"

definition buffered_interval :: "int \<Rightarrow> FixedBlock \<Rightarrow> Interval" where
  "buffered_interval transition_buffer_minutes block =
     \<lparr>iv_start = max 0 (fb_start_minute block - transition_buffer_minutes),
      iv_end = min MINUTES_PER_DAY (fb_end_minute block + transition_buffer_minutes)\<rparr>"

text \<open>The loop of \<open>_available_gaps\<close> over \<open>merged\<close>, returning the final cursor and the gaps.\<close>

fun gaps_loop :: "Interval list \<Rightarrow> int \<Rightarrow> Interval list \<Rightarrow> int \<times> Interval list" where
  "gaps_loop [] cursor gaps = (cursor, gaps)"
| "gaps_loop (interval # rest) cursor gaps =
     gaps_loop rest (max cursor (iv_end interval))
       (if cursor < iv_start interval
        then gaps @ [\<lparr>iv_start = cursor, iv_end = iv_start interval\<rparr>]
        else gaps)"

definition available_gaps :: "FixedBlock list \<Rightarrow> int \<Rightarrow> Interval list" where
  "available_gaps fixed_blocks transition_buffer_minutes =
     (if fixed_blocks = [] then [\<lparr>iv_start = 0, iv_end = MINUTES_PER_DAY\<rparr>]
      else
        let buffered = map (buffered_interval transition_buffer_minutes) fixed_blocks;
            merged = merge_intervals buffered;
            (cursor, gaps) = gaps_loop merged 0 []
        in if cursor < MINUTES_PER_DAY
           then gaps @ [\<lparr>iv_start = cursor, iv_end = MINUTES_PER_DAY\<rparr>]
           else gaps)"

subsection \<open>Greedy assignment\<close>

text \<open>
  \<open>max(fitting, key=lambda item: item[1])\<close>: the running maximum is replaced only by an
  item whose key is strictly greater, so the first of the maximal items is returned.
\<close>

fun max_by_duration :: "nat \<times> int \<Rightarrow> (nat \<times> int) list \<Rightarrow> nat \<times> int" where
  "max_by_duration best [] = best"
| "max_by_duration best (item # rest) =
     max_by_duration (if snd best < snd item then item else best) rest"

definition largest_fitting_gap_index :: "Interval list \<Rightarrow> int \<Rightarrow> nat option" where
  "largest_fitting_gap_index gaps duration_minutes =
     (let fitting =
            filter (\<lambda>item. duration_minutes \<le> snd item)
              (map (\<lambda>(idx, gap). (idx, duration gap)) (enumerate 0 gaps))
      in case fitting of
           [] \<Rightarrow> None
         | item # rest \<Rightarrow> Some (fst (max_by_duration item rest)))"

text \<open>The three lists the task loop of \<open>build_day_timeline\<close> mutates.\<close>

record assign_state =
  as_available_gaps :: "Interval list"
  as_scheduled_tasks :: "ScheduledTask list"
  as_unscheduled_tasks :: "FlexibleTask list"

text \<open>One iteration of the task loop; \<open>available_gaps.pop(gap_index)\<close> removes the gap at that index.\<close>

definition assign_task :: "FlexibleTask \<Rightarrow> assign_state \<Rightarrow> assign_state" where
  "assign_task task s =
     (case largest_fitting_gap_index (as_available_gaps s) (ft_duration_minutes task) of
        None \<Rightarrow> s\<lparr>as_unscheduled_tasks := as_unscheduled_tasks s @ [task]\<rparr>
      | Some gap_index \<Rightarrow>
          let gap = as_available_gaps s ! gap_index;
              popped = take gap_index (as_available_gaps s) @ drop (Suc gap_index) (as_available_gaps s);
              start = iv_start gap;
              end_minute = start + ft_duration_minutes task;
              scheduled = as_scheduled_tasks s @
                [\<lparr>st_id = ft_id task, st_title = ft_title task, st_category = ft_category task,
                  st_priority = ft_priority task, st_start_minute = start,
                  st_end_minute = end_minute\<rparr>]
          in s\<lparr>as_available_gaps :=
                 (if end_minute < iv_end gap
                  then popped @ [\<lparr>iv_start = end_minute, iv_end = iv_end gap\<rparr>]
                  else popped),
               as_scheduled_tasks := scheduled\<rparr>)"

fun assign_tasks :: "FlexibleTask list \<Rightarrow> assign_state \<Rightarrow> assign_state" where
  "assign_tasks [] s = s"
| "assign_tasks (task # rest) s = assign_tasks rest (assign_task task s)"

definition task_key :: "FlexibleTask \<Rightarrow> int \<times> int \<times> string" where
  "task_key task = (ft_priority task, - ft_duration_minutes task, lower (ft_title task))"

subsection \<open>Timeline composition\<close>

definition fixed_slot :: "FixedBlock \<Rightarrow> TimelineSlot" where
  "fixed_slot block =
     \<lparr>ts_slot_type = Fixed, ts_id = fb_id block, ts_title = fb_title block,
      ts_start_minute = fb_start_minute block, ts_end_minute = fb_end_minute block,
      ts_category = None, ts_priority = None\<rparr>"

definition task_slot :: "ScheduledTask \<Rightarrow> TimelineSlot" where
  "task_slot task =
     \<lparr>ts_slot_type = Task, ts_id = st_id task, ts_title = st_title task,
      ts_start_minute = st_start_minute task, ts_end_minute = st_end_minute task,
      ts_category = Some (st_category task), ts_priority = Some (st_priority task)\<rparr>"

definition free_slot :: "int \<Rightarrow> int \<Rightarrow> TimelineSlot" where
  "free_slot cursor until =
     \<lparr>ts_slot_type = Free,
      ts_id = ''free-'' @ str_int cursor @ ''-'' @ str_int until,
      ts_title = ''Free'',
      ts_start_minute = cursor, ts_end_minute = until,
      ts_category = None, ts_priority = None\<rparr>"

text \<open>The two loops that fill \<open>occupied\<close>: each constructs a slot and appends it.\<close>

fun append_slots :: "('a \<Rightarrow> TimelineSlot) \<Rightarrow> 'a list \<Rightarrow> TimelineSlot list \<Rightarrow> error + TimelineSlot list" where
  "append_slots mk [] occupied = Inr occupied"
| "append_slots mk (x # rest) occupied =
     (case TimelineSlot_new (mk x) of
        Inl e \<Rightarrow> Inl e
      | Inr slot \<Rightarrow> append_slots mk rest (occupied @ [slot]))"

definition slot_key :: "TimelineSlot \<Rightarrow> int \<times> int" where
  "slot_key item = (ts_start_minute item, ts_end_minute item)"

text \<open>The walk over the sorted \<open>occupied\<close> list, returning the final cursor and the timeline.\<close>

fun compose_loop :: "TimelineSlot list \<Rightarrow> int \<Rightarrow> TimelineSlot list \<Rightarrow> error + int \<times> TimelineSlot list" where
  "compose_loop [] cursor timeline = Inr (cursor, timeline)"
| "compose_loop (slot # rest) cursor timeline =
     (if cursor < ts_start_minute slot
      then case TimelineSlot_new (free_slot cursor (ts_start_minute slot)) of
             Inl e \<Rightarrow> Inl e
           | Inr free \<Rightarrow>
               compose_loop rest (max cursor (ts_end_minute slot)) (timeline @ [free] @ [slot])
      else compose_loop rest (max cursor (ts_end_minute slot)) (timeline @ [slot]))"

definition compose_timeline :: "FixedBlock list \<Rightarrow> ScheduledTask list \<Rightarrow> error + TimelineSlot list" where
  "compose_timeline fixed_blocks scheduled_tasks =
     (case append_slots fixed_slot fixed_blocks [] of
        Inl e \<Rightarrow> Inl e
      | Inr occupied_fixed \<Rightarrow>
     (case append_slots task_slot scheduled_tasks occupied_fixed of
        Inl e \<Rightarrow> Inl e
      | Inr occupied \<Rightarrow>
     (case compose_loop (sort_key slot_key occupied) 0 [] of
        Inl e \<Rightarrow> Inl e
      | Inr (cursor, timeline) \<Rightarrow>
          if cursor < MINUTES_PER_DAY
          then case TimelineSlot_new (free_slot cursor MINUTES_PER_DAY) of
                 Inl e \<Rightarrow> Inl e
               | Inr free \<Rightarrow> Inr (timeline @ [free])
          else Inr timeline)))"

subsection \<open>The top-level operation\<close>

text \<open>
  The order in which the tasks are tried (\<open>sorted\<close> is stable, as \<open>sort_key\<close> is), and
  the three lists as the task loop finds them.
\<close>

definition prioritized_tasks :: "DayScheduleRequest \<Rightarrow> FlexibleTask list" where
  "prioritized_tasks request = sort_key task_key (req_flexible_tasks request)"

definition initial_state :: "FixedBlock list \<Rightarrow> DayScheduleRequest \<Rightarrow> assign_state" where
  "initial_state fixed_blocks request =
     \<lparr>as_available_gaps = available_gaps fixed_blocks (req_transition_buffer_minutes request),
      as_scheduled_tasks = [], as_unscheduled_tasks = []\<rparr>"

definition build_day_timeline :: "DayScheduleRequest \<Rightarrow> error + TimelineResponse" where
  "build_day_timeline request =
     (case sorted_non_overlapping_fixed_blocks (req_fixed_blocks request) of
        Inl e \<Rightarrow> Inl e
      | Inr fixed_blocks \<Rightarrow>
          (let final = assign_tasks (prioritized_tasks request) (initial_state fixed_blocks request)
           in (case compose_timeline fixed_blocks (as_scheduled_tasks final) of
                 Inl e \<Rightarrow> Inl e
               | Inr timeline \<Rightarrow>
                   Inr \<lparr>resp_day_start_minute = 0,
                        resp_day_end_minute = MINUTES_PER_DAY,
                        resp_transition_buffer_minutes = req_transition_buffer_minutes request,
                        resp_timeline = timeline,
                        resp_scheduled_tasks = sort_key st_start_minute (as_scheduled_tasks final),
                        resp_unscheduled_tasks = as_unscheduled_tasks final\<rparr>)))"

section \<open>Predicates the properties are stated with\<close>

text \<open>Position \<open>i\<close> of a list of blocks holds an adjacent pair that the overlap check rejects.\<close>

definition overlap_at :: "FixedBlock list \<Rightarrow> nat \<Rightarrow> bool" where
  "overlap_at bs i \<longleftrightarrow>
     Suc i < length bs \<and> fb_start_minute (bs ! Suc i) < fb_end_minute (bs ! i)"

text \<open>Two half-open intervals \<open>[start, end)\<close> that share no minute.\<close>

definition iv_disjoint :: "Interval \<Rightarrow> Interval \<Rightarrow> bool" where
  "iv_disjoint a b \<longleftrightarrow> iv_end a \<le> iv_start b \<or> iv_end b \<le> iv_start a"

text \<open>An interval that lies inside one interval of a list.\<close>

definition covered_by :: "Interval list \<Rightarrow> Interval \<Rightarrow> bool" where
  "covered_by ms x \<longleftrightarrow> list_ex (\<lambda>m. iv_start m \<le> iv_start x \<and> iv_end x \<le> iv_end m) ms"

text \<open>A non-empty interval inside the day.\<close>

definition in_day :: "Interval \<Rightarrow> bool" where
  "in_day g \<longleftrightarrow> 0 \<le> iv_start g \<and> iv_start g < iv_end g \<and> iv_end g \<le> MINUTES_PER_DAY"

text \<open>The interval a scheduled task occupies.\<close>

definition task_interval :: "ScheduledTask \<Rightarrow> Interval" where
  "task_interval t = \<lparr>iv_start = st_start_minute t, iv_end = st_end_minute t\<rparr>"

text \<open>
  The invariant of the task loop, relative to a list of zones that must stay free: every
  gap of the pool and every placed task is a non-empty interval of the day, no two of them
  share a minute, and none of them meets a zone.
\<close>

definition assign_inv :: "Interval list \<Rightarrow> assign_state \<Rightarrow> bool" where
  "assign_inv zones s \<longleftrightarrow>
     (\<forall>x\<in>set (as_available_gaps s @ map task_interval (as_scheduled_tasks s)).
        in_day x \<and> (\<forall>z\<in>set zones. iv_disjoint x z))
     \<and> sorted_wrt iv_disjoint (as_available_gaps s @ map task_interval (as_scheduled_tasks s))"

text \<open>
  A list of slots that tiles \<open>[a, b)\<close>: the first slot starts at \<open>a\<close>, every slot is
  non-empty, every next slot starts where the previous one ends, and the last one ends at \<open>b\<close>.
\<close>

fun tiles :: "int \<Rightarrow> TimelineSlot list \<Rightarrow> int \<Rightarrow> bool" where
  "tiles a [] b \<longleftrightarrow> a = b"
| "tiles a (s # ss) b \<longleftrightarrow> ts_start_minute s = a \<and> a < ts_end_minute s \<and> tiles (ts_end_minute s) ss b"

text \<open>Two fixed blocks that share no minute, and a list of blocks no two of which overlap.\<close>

definition blocks_disjoint :: "FixedBlock \<Rightarrow> FixedBlock \<Rightarrow> bool" where
  "blocks_disjoint a b \<longleftrightarrow>
     fb_end_minute a \<le> fb_start_minute b \<or> fb_end_minute b \<le> fb_start_minute a"

definition non_overlapping :: "FixedBlock list \<Rightarrow> bool" where
  "non_overlapping blocks \<longleftrightarrow> sorted_wrt blocks_disjoint blocks"

text \<open>
  A valid request: every field within the range its model declares, and no two fixed
  blocks overlapping.
\<close>

definition valid_request :: "DayScheduleRequest \<Rightarrow> bool" where
  "valid_request request \<longleftrightarrow>
     DayScheduleRequest_valid request \<and> non_overlapping (req_fixed_blocks request)"

text \<open>The sorted fixed blocks and the final state of the task loop, as \<open>build_day_timeline\<close> computes them.\<close>

definition sorted_fixed_blocks :: "DayScheduleRequest \<Rightarrow> FixedBlock list" where
  "sorted_fixed_blocks request = sort_key fixed_block_key (req_fixed_blocks request)"

definition state_after :: "DayScheduleRequest \<Rightarrow> nat \<Rightarrow> assign_state" where
  "state_after request k =
     assign_tasks (take k (prioritized_tasks request))
       (initial_state (sorted_fixed_blocks request) request)"

text \<open>
  A request used to exercise the properties: two fixed blocks given out of order, a buffer
  of 15 minutes, and three tasks of which the last fits no gap.
\<close>

definition example_request :: DayScheduleRequest where
  "example_request =
     \<lparr>req_fixed_blocks =
        [\<lparr>fb_id = ''lunch'', fb_title = ''Lunch'', fb_start_minute = 720, fb_end_minute = 780\<rparr>,
         \<lparr>fb_id = ''standup'', fb_title = ''Standup'', fb_start_minute = 540, fb_end_minute = 570\<rparr>],
      req_flexible_tasks =
        [\<lparr>ft_id = ''review'', ft_title = ''Review'', ft_duration_minutes = 60, ft_priority = 2,
          ft_category = ''work''\<rparr>,
         \<lparr>ft_id = ''write'', ft_title = ''Write'', ft_duration_minutes = 120, ft_priority = 1,
          ft_category = ''work''\<rparr>,
         \<lparr>ft_id = ''gym'', ft_title = ''Gym'', ft_duration_minutes = 1300, ft_priority = 3,
          ft_category = ''health''\<rparr>],
      req_transition_buffer_minutes = 15\<rparr>"

text \<open>What a flexible task and a scheduled task say about the task they stand for.\<close>

definition task_signature :: "FlexibleTask \<Rightarrow> string \<times> string \<times> string \<times> int \<times> int" where
  "task_signature t = (ft_id t, ft_title t, ft_category t, ft_priority t, ft_duration_minutes t)"

definition placement_signature :: "ScheduledTask \<Rightarrow> string \<times> string \<times> string \<times> int \<times> int" where
  "placement_signature s =
     (st_id s, st_title s, st_category s, st_priority s, st_end_minute s - st_start_minute s)"

text \<open>A task bound to the start of a gap.\<close>

definition bound_task :: "FlexibleTask \<Rightarrow> Interval \<Rightarrow> ScheduledTask" where
  "bound_task task gap =
     \<lparr>st_id = ft_id task, st_title = ft_title task, st_category = ft_category task,
      st_priority = ft_priority task, st_start_minute = iv_start gap,
      st_end_minute = iv_start gap + ft_duration_minutes task\<rparr>"

text \<open>
  The id of a task appears in exactly one of the two task lists of a response.
\<close>

definition appears_in_exactly_one :: "TimelineResponse \<Rightarrow> FlexibleTask \<Rightarrow> bool" where
  "appears_in_exactly_one response t \<longleftrightarrow>
     (ft_id t \<in> set (map st_id (resp_scheduled_tasks response))) \<noteq>
     (ft_id t \<in> set (map ft_id (resp_unscheduled_tasks response)))"

text \<open>A request whose two tasks carry the same id; only the first of them fits the day.\<close>

definition duplicate_id_request :: DayScheduleRequest where
  "duplicate_id_request =
     \<lparr>req_fixed_blocks = [],
      req_flexible_tasks =
        [\<lparr>ft_id = ''a'', ft_title = ''Deep work'', ft_duration_minutes = 1440, ft_priority = 1,
          ft_category = ''work''\<rparr>,
         \<lparr>ft_id = ''a'', ft_title = ''Workout'', ft_duration_minutes = 60, ft_priority = 2,
          ft_category = ''health''\<rparr>],
      req_transition_buffer_minutes = 15\<rparr>"

text \<open>
  The selected gap starts no later than any gap of the pool that has the same duration
  (the selected gap has the maximum duration among the fitting ones).
\<close>

definition earliest_start_selected :: "Interval list \<Rightarrow> int \<Rightarrow> bool" where
  "earliest_start_selected gaps duration_minutes \<longleftrightarrow>
     (case largest_fitting_gap_index gaps duration_minutes of
        None \<Rightarrow> True
      | Some i \<Rightarrow>
          list_all (\<lambda>g. duration g = duration (gaps ! i) \<longrightarrow> iv_start (gaps ! i) \<le> iv_start g) gaps)"

text \<open>
  A request whose first task splits the gap \<open>[0, 300)\<close>: the leftover \<open>[200, 300)\<close> is
  appended to the pool after the gap \<open>[500, 600)\<close> of the same duration.
\<close>

definition leftover_tie_request :: DayScheduleRequest where
  "leftover_tie_request =
     \<lparr>req_fixed_blocks =
        [\<lparr>fb_id = ''A'', fb_title = ''Block A'', fb_start_minute = 300, fb_end_minute = 500\<rparr>,
         \<lparr>fb_id = ''B'', fb_title = ''Block B'', fb_start_minute = 600, fb_end_minute = 1440\<rparr>],
      req_flexible_tasks =
        [\<lparr>ft_id = ''t1'', ft_title = ''First'', ft_duration_minutes = 200, ft_priority = 1,
          ft_category = ''work''\<rparr>,
         \<lparr>ft_id = ''t2'', ft_title = ''Second'', ft_duration_minutes = 100, ft_priority = 1,
          ft_category = ''work''\<rparr>],
      req_transition_buffer_minutes = 0\<rparr>"

text \<open>The bounds of the free slots of a timeline, in order.\<close>

definition free_slots :: "TimelineSlot list \<Rightarrow> (int \<times> int) list" where
  "free_slots timeline = map slot_key (filter (\<lambda>s. ts_slot_type s = Free) timeline)"

text \<open>One fixed block 540-570, a buffer of 15 minutes and no task.\<close>

definition standup_request :: DayScheduleRequest where
  "standup_request =
     \<lparr>req_fixed_blocks =
        [\<lparr>fb_id = ''standup'', fb_title = ''Standup'', fb_start_minute = 540, fb_end_minute = 570\<rparr>],
      req_flexible_tasks = [],
      req_transition_buffer_minutes = 15\<rparr>"

section \<open>The overlap check\<close>

lemma overlap_at_Cons_Suc: "overlap_at (b # bs) (Suc i) = overlap_at bs i"
  by (simp add: overlap_at_def)

lemma overlap_at_0: "overlap_at (p # c # rest) 0 \<longleftrightarrow> fb_start_minute c < fb_end_minute p"
  by (simp add: overlap_at_def)

lemma overlap_at_short: "length bs \<le> 1 \<Longrightarrow> \<not> overlap_at bs i"
  by (simp add: overlap_at_def)

lemma check_adjacent_Some:
  "check_adjacent bs = Some e \<longleftrightarrow>
     (\<exists>i. overlap_at bs i \<and> (\<forall>j<i. \<not> overlap_at bs j) \<and>
          e = ValueError (overlap_message (bs ! i) (bs ! Suc i)))"
proof (induction bs rule: check_adjacent.induct)
  case (1 p c rest)
  show ?case
  proof (cases "fb_start_minute c < fb_end_minute p")
    case True
    then have ov: "overlap_at (p # c # rest) 0" by (simp add: overlap_at_0)
    have only0: "\<And>i. overlap_at (p # c # rest) i \<and> (\<forall>j<i. \<not> overlap_at (p # c # rest) j) \<Longrightarrow> i = 0"
      using ov by (metis not_gr_zero)
    have "check_adjacent (p # c # rest) = Some e \<longleftrightarrow> e = ValueError (overlap_message p c)"
      using True by auto
    also have "\<dots> \<longleftrightarrow> (\<exists>i. overlap_at (p # c # rest) i \<and> (\<forall>j<i. \<not> overlap_at (p # c # rest) j) \<and>
          e = ValueError (overlap_message ((p # c # rest) ! i) ((p # c # rest) ! Suc i)))"
      (is "_ \<longleftrightarrow> (\<exists>i. ?Q i)")
    proof
      assume "e = ValueError (overlap_message p c)"
      then have "?Q 0" using ov by simp
      then show "\<exists>i. ?Q i" by blast
    next
      assume "\<exists>i. ?Q i"
      then obtain i where q: "?Q i" by blast
      then have "i = 0" using only0 by blast
      with q show "e = ValueError (overlap_message p c)" by simp
    qed
    finally show ?thesis .
  next
    case False
    then have nov: "\<not> overlap_at (p # c # rest) 0" by (simp add: overlap_at_0)
    have shift: "(\<forall>j<Suc k. \<not> overlap_at (p # c # rest) j) \<longleftrightarrow> (\<forall>j<k. \<not> overlap_at (c # rest) j)" for k
      using nov by (auto simp: less_Suc_eq_0_disj overlap_at_Cons_Suc)
    have "check_adjacent (p # c # rest) = Some e \<longleftrightarrow> check_adjacent (c # rest) = Some e"
      using False by simp
    also have "\<dots> \<longleftrightarrow> (\<exists>i. overlap_at (c # rest) i \<and> (\<forall>j<i. \<not> overlap_at (c # rest) j) \<and>
          e = ValueError (overlap_message ((c # rest) ! i) ((c # rest) ! Suc i)))"
      using 1 False by simp
    also have "\<dots> \<longleftrightarrow> (\<exists>i. overlap_at (p # c # rest) (Suc i) \<and> (\<forall>j<Suc i. \<not> overlap_at (p # c # rest) j) \<and>
          e = ValueError (overlap_message ((p # c # rest) ! Suc i) ((p # c # rest) ! Suc (Suc i))))"
      by (simp only: shift overlap_at_Cons_Suc nth_Cons_Suc)
    also have "\<dots> \<longleftrightarrow> (\<exists>i. overlap_at (p # c # rest) i \<and> (\<forall>j<i. \<not> overlap_at (p # c # rest) j) \<and>
          e = ValueError (overlap_message ((p # c # rest) ! i) ((p # c # rest) ! Suc i)))"
      (is "(\<exists>i. ?Q (Suc i)) \<longleftrightarrow> (\<exists>i. ?Q i)")
    proof
      assume "\<exists>i. ?Q (Suc i)" then show "\<exists>i. ?Q i" by blast
    next
      assume "\<exists>i. ?Q i"
      then obtain i where q: "?Q i" by blast
      with nov have "i \<noteq> 0" by (metis (full_types))
      then obtain k where "i = Suc k" by (cases i) auto
      with q show "\<exists>i. ?Q (Suc i)" by blast
    qed
    finally show ?thesis .
  qed
qed (simp_all add: overlap_at_short)

lemma check_adjacent_None:
  "check_adjacent bs = None \<longleftrightarrow> (\<forall>i. \<not> overlap_at bs i)"
proof -
  have "(\<exists>i. overlap_at bs i) \<longleftrightarrow> (\<exists>i. overlap_at bs i \<and> (\<forall>j<i. \<not> overlap_at bs j))"
    by (metis exists_least_iff)
  then show ?thesis
    using check_adjacent_Some [of bs] by (cases "check_adjacent bs") auto
qed

lemma MINUTES_PER_DAY_eq: "MINUTES_PER_DAY = 1440"
  by (simp add: MINUTES_PER_DAY_def)

section \<open>Stable sorting and pairwise relations\<close>

lemma sorted_wrt_insort_key_sym:
  assumes sym: "\<And>a b. P a b \<Longrightarrow> P b a"
  shows "sorted_wrt P (insort_key f x xs) \<longleftrightarrow> (\<forall>y\<in>set xs. P x y) \<and> sorted_wrt P xs"
  by (induction xs) (auto simp: set_insort_key dest: sym)

lemma sorted_wrt_sort_key_sym:
  assumes sym: "\<And>a b. P a b \<Longrightarrow> P b a"
  shows "sorted_wrt P (sort_key f xs) \<longleftrightarrow> sorted_wrt P xs"
proof (induction xs)
  case Nil
  show ?case by simp
next
  case (Cons x xs)
  show ?case
    using Cons.IH by (simp add: sorted_wrt_insort_key_sym [of P, OF sym])
qed

lemma sorted_wrt_conj:
  "sorted_wrt P xs \<Longrightarrow> sorted_wrt Q xs \<Longrightarrow> sorted_wrt (\<lambda>a b. P a b \<and> Q a b) xs"
  by (induction xs) auto

lemma sorted_wrt_set_mono:
  "sorted_wrt P xs \<Longrightarrow> (\<And>a b. a \<in> set xs \<Longrightarrow> b \<in> set xs \<Longrightarrow> P a b \<Longrightarrow> Q a b) \<Longrightarrow> sorted_wrt Q xs"
  by (induction xs) auto

lemma sorted_map_key_wrt:
  "sorted (map f xs) \<longleftrightarrow> sorted_wrt (\<lambda>a b. f a \<le> f b) xs"
  by (simp add: sorted_wrt_map)

section \<open>Merging intervals\<close>

lemma covered_by_iff:
  "covered_by ms x \<longleftrightarrow> (\<exists>m\<in>set ms. iv_start m \<le> iv_start x \<and> iv_end x \<le> iv_end m)"
  by (simp add: covered_by_def list_ex_iff)

lemma covered_by_trans:
  "covered_by ms y \<Longrightarrow> iv_start y \<le> iv_start x \<Longrightarrow> iv_end x \<le> iv_end y \<Longrightarrow> covered_by ms x"
  unfolding covered_by_iff by (meson order_trans)

lemma merge_loop_snoc:
  "merge_loop (ms @ [l]) (current # rest) =
     (if iv_start current \<le> iv_end l
      then merge_loop (ms @ [\<lparr>iv_start = iv_start l, iv_end = max (iv_end l) (iv_end current)\<rparr>]) rest
      else merge_loop (ms @ [l, current]) rest)"
  by simp

lemma merge_loop_sorted:
  "sorted (map iv_start (ms @ l # rest)) \<Longrightarrow> sorted (map iv_start (merge_loop (ms @ [l]) rest))"
proof (induction rest arbitrary: ms l)
  case Nil
  then show ?case by simp
next
  case (Cons current rest)
  show ?case
  proof (cases "iv_start current \<le> iv_end l")
    case True
    let ?n = "\<lparr>iv_start = iv_start l, iv_end = max (iv_end l) (iv_end current)\<rparr>"
    have "sorted (map iv_start (ms @ ?n # rest))"
      using Cons.prems by (auto simp: sorted_append)
    then show ?thesis using Cons.IH [of ms ?n] True by (simp only: merge_loop_snoc if_True)
  next
    case False
    have "sorted (map iv_start ((ms @ [l]) @ current # rest))"
      using Cons.prems by simp
    then show ?thesis using Cons.IH [of "ms @ [l]" current] False
      by (simp only: merge_loop_snoc if_False append_assoc append_Cons append_Nil)
  qed
qed

lemma merge_loop_wf:
  "\<forall>x\<in>set (ms @ l # rest). iv_start x \<le> iv_end x \<Longrightarrow>
   \<forall>x\<in>set (merge_loop (ms @ [l]) rest). iv_start x \<le> iv_end x"
proof (induction rest arbitrary: ms l)
  case Nil
  then show ?case by simp
next
  case (Cons current rest)
  show ?case
  proof (cases "iv_start current \<le> iv_end l")
    case True
    let ?n = "\<lparr>iv_start = iv_start l, iv_end = max (iv_end l) (iv_end current)\<rparr>"
    have "\<forall>x\<in>set (ms @ ?n # rest). iv_start x \<le> iv_end x"
      using Cons.prems by auto
    then show ?thesis using Cons.IH [of ms ?n] True by (simp only: merge_loop_snoc if_True)
  next
    case False
    have "\<forall>x\<in>set ((ms @ [l]) @ current # rest). iv_start x \<le> iv_end x"
      using Cons.prems by simp
    then show ?thesis using Cons.IH [of "ms @ [l]" current] False
      by (simp only: merge_loop_snoc if_False append_assoc append_Cons append_Nil)
  qed
qed

lemma merge_loop_starts:
  "iv_start ` set (merge_loop (ms @ [l]) rest) \<subseteq> iv_start ` set (ms @ l # rest)"
proof (induction rest arbitrary: ms l)
  case Nil
  then show ?case by simp
next
  case (Cons current rest)
  show ?case
  proof (cases "iv_start current \<le> iv_end l")
    case True
    let ?n = "\<lparr>iv_start = iv_start l, iv_end = max (iv_end l) (iv_end current)\<rparr>"
    have "iv_start ` set (merge_loop (ms @ [?n]) rest) \<subseteq> iv_start ` set (ms @ ?n # rest)"
      by (rule Cons.IH)
    also have "\<dots> \<subseteq> iv_start ` set (ms @ l # current # rest)" by auto
    finally show ?thesis using True by (simp only: merge_loop_snoc if_True)
  next
    case False
    have "iv_start ` set (merge_loop ((ms @ [l]) @ [current]) rest) \<subseteq> iv_start ` set ((ms @ [l]) @ current # rest)"
      by (rule Cons.IH)
    then show ?thesis using False
      by (simp only: merge_loop_snoc if_False append_assoc append_Cons append_Nil)
  qed
qed

lemma merge_loop_covers:
  "sorted (map iv_start (ms @ l # rest)) \<Longrightarrow>
   \<forall>x\<in>set (ms @ l # rest). covered_by (merge_loop (ms @ [l]) rest) x"
proof (induction rest arbitrary: ms l)
  case Nil
  then show ?case by (auto simp: covered_by_iff)
next
  case (Cons current rest)
  show ?case
  proof (cases "iv_start current \<le> iv_end l")
    case True
    let ?n = "\<lparr>iv_start = iv_start l, iv_end = max (iv_end l) (iv_end current)\<rparr>"
    let ?R = "merge_loop (ms @ [?n]) rest"
    have R: "merge_loop (ms @ [l]) (current # rest) = ?R"
      using True by (simp only: merge_loop_snoc if_True)
    have "sorted (map iv_start (ms @ ?n # rest))"
      using Cons.prems by (auto simp: sorted_append)
    then have ih: "\<forall>x\<in>set (ms @ ?n # rest). covered_by ?R x"
      by (rule Cons.IH)
    then have n: "covered_by ?R ?n" by simp
    have le: "iv_start l \<le> iv_start current"
      using Cons.prems by (simp add: sorted_append)
    have "covered_by ?R l" by (rule covered_by_trans [OF n]) simp_all
    moreover have "covered_by ?R current" by (rule covered_by_trans [OF n]) (simp_all add: le)
    ultimately show ?thesis using ih unfolding R by auto
  next
    case False
    have R: "merge_loop (ms @ [l]) (current # rest) = merge_loop ((ms @ [l]) @ [current]) rest"
      using False by (simp only: merge_loop_snoc if_False append_assoc append_Cons append_Nil)
    have "sorted (map iv_start ((ms @ [l]) @ current # rest))"
      using Cons.prems by simp
    then have "\<forall>x\<in>set ((ms @ [l]) @ current # rest). covered_by (merge_loop ((ms @ [l]) @ [current]) rest) x"
      by (rule Cons.IH)
    then show ?thesis unfolding R by simp
  qed
qed

lemma sorted_interval_key_starts:
  "sorted (map interval_key xs) \<Longrightarrow> sorted (map iv_start xs)"
  by (induction xs) (auto simp: interval_key_def less_eq_prod_def)

lemma merge_intervals_props:
  assumes wf: "\<forall>x\<in>set intervals. iv_start x \<le> iv_end x"
  shows "sorted (map iv_start (merge_intervals intervals))"
    and "\<forall>m\<in>set (merge_intervals intervals). iv_start m \<le> iv_end m"
    and "iv_start ` set (merge_intervals intervals) \<subseteq> iv_start ` set intervals"
    and "\<forall>x\<in>set intervals. covered_by (merge_intervals intervals) x"
proof -
  let ?s = "sort_key interval_key intervals"
  have srt: "sorted (map iv_start ?s)"
    by (rule sorted_interval_key_starts) (rule sorted_sort_key)
  have set_s: "set ?s = set intervals" by simp
  show "sorted (map iv_start (merge_intervals intervals))"
    using srt merge_loop_sorted [of "[]"]
    by (auto simp: merge_intervals_def split: list.splits)
  show "\<forall>m\<in>set (merge_intervals intervals). iv_start m \<le> iv_end m"
  proof (cases ?s)
    case Nil
    then show ?thesis by (simp add: merge_intervals_def)
  next
    case (Cons first others)
    have "\<forall>x\<in>set ([] @ first # others). iv_start x \<le> iv_end x"
      using wf set_s Cons by simp
    from merge_loop_wf [OF this] show ?thesis
      using Cons by (simp add: merge_intervals_def)
  qed
  show "iv_start ` set (merge_intervals intervals) \<subseteq> iv_start ` set intervals"
  proof (cases ?s)
    case Nil
    then show ?thesis by (simp add: merge_intervals_def)
  next
    case (Cons first others)
    have "iv_start ` set (merge_loop ([] @ [first]) others) \<subseteq> iv_start ` set ([] @ first # others)"
      by (rule merge_loop_starts)
    moreover have "set intervals = set (first # others)" using set_s Cons by simp
    ultimately show ?thesis
      using Cons by (simp add: merge_intervals_def)
  qed
  show "\<forall>x\<in>set intervals. covered_by (merge_intervals intervals) x"
  proof (cases ?s)
    case Nil
    then have "intervals = []" using set_s by simp
    then show ?thesis by simp
  next
    case (Cons first others)
    have "sorted (map iv_start ([] @ first # others))" using srt Cons by simp
    from merge_loop_covers [OF this]
    have "\<forall>x\<in>set (first # others). covered_by (merge_loop [first] others) x" by simp
    moreover have "set intervals = set (first # others)" using set_s Cons by simp
    ultimately show ?thesis
      using Cons by (simp add: merge_intervals_def)
  qed
qed

section \<open>Gaps between the merged regions\<close>

lemma gaps_loop_acc:
  "gaps_loop ms cursor acc = (fst (gaps_loop ms cursor []), acc @ snd (gaps_loop ms cursor []))"
proof (induction ms arbitrary: cursor acc)
  case Nil
  show ?case by simp
next
  case (Cons m ms)
  show ?case
    by (simp add: Cons.IH [of _ "acc @ _"] Cons.IH [of _ "[_]"] Cons.IH [of _ acc])
qed

lemma gaps_loop_Cons:
  "gaps_loop (m # ms) cursor [] =
     (fst (gaps_loop ms (max cursor (iv_end m)) []),
      (if cursor < iv_start m then [\<lparr>iv_start = cursor, iv_end = iv_start m\<rparr>] else []) @
        snd (gaps_loop ms (max cursor (iv_end m)) []))"
  by (simp add: gaps_loop_acc [of ms _ "[_]"])

lemma gaps_loop_props:
  assumes "sorted (map iv_start ms)" and "\<forall>m\<in>set ms. iv_start m \<le> iv_end m"
  shows "cursor \<le> fst (gaps_loop ms cursor [])
       \<and> (\<forall>m\<in>set ms. iv_end m \<le> fst (gaps_loop ms cursor []))
       \<and> (\<forall>g\<in>set (snd (gaps_loop ms cursor [])).
             cursor \<le> iv_start g \<and> iv_start g < iv_end g \<and> iv_end g \<le> fst (gaps_loop ms cursor [])
             \<and> (\<forall>m\<in>set ms. iv_disjoint g m))
       \<and> sorted_wrt (\<lambda>g h. iv_end g \<le> iv_start h) (snd (gaps_loop ms cursor []))"
  using assms
proof (induction ms arbitrary: cursor)
  case Nil
  show ?case by simp
next
  case (Cons m ms)
  let ?c = "max cursor (iv_end m)"
  let ?r = "gaps_loop ms ?c []"
  have srt: "sorted (map iv_start ms)" and wf: "\<forall>m\<in>set ms. iv_start m \<le> iv_end m"
    and m_le: "\<forall>x\<in>set ms. iv_start m \<le> iv_start x" and m_wf: "iv_start m \<le> iv_end m"
    using Cons.prems by auto
  note ih = Cons.IH [OF srt wf, of ?c]
  from ih have c_le: "?c \<le> fst ?r" by blast
  from ih have ends: "\<forall>x\<in>set ms. iv_end x \<le> fst ?r" by blast
  from ih have gaps: "\<forall>g\<in>set (snd ?r). ?c \<le> iv_start g \<and> iv_start g < iv_end g
      \<and> iv_end g \<le> fst ?r \<and> (\<forall>x\<in>set ms. iv_disjoint g x)" by blast
  from ih have chain: "sorted_wrt (\<lambda>g h. iv_end g \<le> iv_start h) (snd ?r)" by blast
  have 1: "cursor \<le> fst (gaps_loop (m # ms) cursor [])"
    using c_le by (simp add: gaps_loop_Cons del: gaps_loop.simps)
  have 2: "\<forall>x\<in>set (m # ms). iv_end x \<le> fst (gaps_loop (m # ms) cursor [])"
    using c_le ends by (simp add: gaps_loop_Cons del: gaps_loop.simps)
  have 3: "\<forall>g\<in>set (snd (gaps_loop (m # ms) cursor [])).
             cursor \<le> iv_start g \<and> iv_start g < iv_end g
             \<and> iv_end g \<le> fst (gaps_loop (m # ms) cursor [])
             \<and> (\<forall>x\<in>set (m # ms). iv_disjoint g x)"
  proof
    fix g assume "g \<in> set (snd (gaps_loop (m # ms) cursor []))"
    then consider (new) "cursor < iv_start m" "g = \<lparr>iv_start = cursor, iv_end = iv_start m\<rparr>"
      | (old) "g \<in> set (snd ?r)"
      by (auto simp: gaps_loop_Cons simp del: gaps_loop.simps split: if_splits)
    then show "cursor \<le> iv_start g \<and> iv_start g < iv_end g
             \<and> iv_end g \<le> fst (gaps_loop (m # ms) cursor [])
             \<and> (\<forall>x\<in>set (m # ms). iv_disjoint g x)"
    proof cases
      case new
      then show ?thesis
        using c_le m_wf m_le by (auto simp: gaps_loop_Cons iv_disjoint_def simp del: gaps_loop.simps)
    next
      case old
      with gaps have "?c \<le> iv_start g" "iv_start g < iv_end g" "iv_end g \<le> fst ?r"
        "\<forall>x\<in>set ms. iv_disjoint g x" by auto
      then show ?thesis
        by (auto simp: gaps_loop_Cons iv_disjoint_def simp del: gaps_loop.simps)
    qed
  qed
  have 4: "sorted_wrt (\<lambda>g h. iv_end g \<le> iv_start h) (snd (gaps_loop (m # ms) cursor []))"
  proof -
    have "\<forall>g\<in>set (snd ?r). iv_start m \<le> iv_start g"
      using gaps m_wf by fastforce
    then show ?thesis
      using chain by (simp add: gaps_loop_Cons del: gaps_loop.simps)
  qed
  from 1 2 3 4 show ?case by blast
qed

lemma gaps_loop_ends:
  "\<forall>g\<in>set (snd (gaps_loop ms cursor [])). iv_end g \<in> iv_start ` set ms"
proof (induction ms arbitrary: cursor)
  case Nil
  show ?case by simp
next
  case (Cons m ms)
  show ?case
    using Cons.IH [of "max cursor (iv_end m)"]
    by (auto simp: gaps_loop_Cons simp del: gaps_loop.simps)
qed

lemma buffered_interval_bounds:
  assumes "FixedBlock_valid f" and "0 \<le> b"
  shows "0 \<le> iv_start (buffered_interval b f)"
    and "iv_start (buffered_interval b f) \<le> fb_start_minute f"
    and "fb_end_minute f \<le> iv_end (buffered_interval b f)"
    and "iv_start (buffered_interval b f) < iv_end (buffered_interval b f)"
    and "iv_start (buffered_interval b f) < MINUTES_PER_DAY"
    and "iv_end (buffered_interval b f) \<le> MINUTES_PER_DAY"
  using assms by (auto simp: buffered_interval_def FixedBlock_valid_def MINUTES_PER_DAY_eq)

lemma iv_disjoint_covered:
  "iv_disjoint g m \<Longrightarrow> iv_start m \<le> iv_start x \<Longrightarrow> iv_end x \<le> iv_end m \<Longrightarrow>
   iv_start g \<le> iv_end g \<Longrightarrow> iv_disjoint g x"
  by (auto simp: iv_disjoint_def)

lemma available_gaps_props:
  assumes valid: "list_all FixedBlock_valid fixed" and b: "0 \<le> b"
  shows "\<forall>g\<in>set (available_gaps fixed b). in_day g"
    and "sorted_wrt (\<lambda>g h. iv_end g \<le> iv_start h) (available_gaps fixed b)"
    and "\<forall>g\<in>set (available_gaps fixed b). \<forall>f\<in>set fixed. iv_disjoint g (buffered_interval b f)"
proof -
  let ?buffered = "map (buffered_interval b) fixed"
  let ?merged = "merge_intervals ?buffered"
  let ?c = "fst (gaps_loop ?merged 0 [])"
  let ?gs = "snd (gaps_loop ?merged 0 [])"
  let ?tail = "if ?c < MINUTES_PER_DAY then [\<lparr>iv_start = ?c, iv_end = MINUTES_PER_DAY\<rparr>] else []"
  have v: "\<And>f. f \<in> set fixed \<Longrightarrow> FixedBlock_valid f"
    using valid by (simp add: list_all_iff)
  have wf: "\<forall>x\<in>set ?buffered. iv_start x \<le> iv_end x"
    using buffered_interval_bounds(4) [OF v b] by fastforce
  note mp = merge_intervals_props [OF wf]
  note gp = gaps_loop_props [OF mp(1) mp(2), of 0]
  have c0: "0 \<le> ?c" using gp by blast
  have m_end: "\<forall>m\<in>set ?merged. iv_end m \<le> ?c" using gp by blast
  have g_props: "\<forall>g\<in>set ?gs. 0 \<le> iv_start g \<and> iv_start g < iv_end g \<and> iv_end g \<le> ?c
      \<and> (\<forall>m\<in>set ?merged. iv_disjoint g m)" using gp by blast
  have g_chain: "sorted_wrt (\<lambda>g h. iv_end g \<le> iv_start h) ?gs" using gp by blast
  have starts: "\<forall>s\<in>iv_start ` set ?merged. s < MINUTES_PER_DAY"
  proof
    fix s assume "s \<in> iv_start ` set ?merged"
    then have "s \<in> iv_start ` set ?buffered" using mp(3) by blast
    then obtain f where "f \<in> set fixed" "s = iv_start (buffered_interval b f)" by auto
    then show "s < MINUTES_PER_DAY" using buffered_interval_bounds(5) [OF v b] by simp
  qed
  have g_end: "\<forall>g\<in>set ?gs. iv_end g \<le> MINUTES_PER_DAY"
    using gaps_loop_ends [of ?merged 0] starts by fastforce
  have eq: "fixed \<noteq> [] \<Longrightarrow> available_gaps fixed b = ?gs @ ?tail"
    by (simp add: available_gaps_def Let_def case_prod_beta)
  have eq0: "available_gaps [] b = [\<lparr>iv_start = 0, iv_end = MINUTES_PER_DAY\<rparr>]"
    by (simp add: available_gaps_def)
  show "\<forall>g\<in>set (available_gaps fixed b). in_day g"
  proof (cases "fixed = []")
    case True
    then show ?thesis by (simp add: eq0 in_day_def MINUTES_PER_DAY_eq)
  next
    case False
    then show ?thesis
      using g_props g_end c0 by (auto simp: eq in_day_def)
  qed
  show "sorted_wrt (\<lambda>g h. iv_end g \<le> iv_start h) (available_gaps fixed b)"
  proof (cases "fixed = []")
    case True
    then show ?thesis by (simp add: eq0)
  next
    case False
    then show ?thesis
      using g_props g_chain by (auto simp: eq sorted_wrt_append)
  qed
  show "\<forall>g\<in>set (available_gaps fixed b). \<forall>f\<in>set fixed. iv_disjoint g (buffered_interval b f)"
  proof (cases "fixed = []")
    case True
    then show ?thesis by simp
  next
    case False
    show ?thesis
    proof (intro ballI)
      fix g f assume g: "g \<in> set (available_gaps fixed b)" and f: "f \<in> set fixed"
      let ?x = "buffered_interval b f"
      have "covered_by ?merged ?x" using mp(4) f by simp
      then obtain m where m: "m \<in> set ?merged" "iv_start m \<le> iv_start ?x" "iv_end ?x \<le> iv_end m"
        by (auto simp: covered_by_iff)
      from g False consider (gap) "g \<in> set ?gs"
        | (tail) "?c < MINUTES_PER_DAY" "g = \<lparr>iv_start = ?c, iv_end = MINUTES_PER_DAY\<rparr>"
        by (auto simp: eq split: if_splits)
      then show "iv_disjoint g ?x"
      proof cases
        case gap
        with g_props m(1) have "iv_disjoint g m" "iv_start g \<le> iv_end g" by auto
        then show ?thesis using m(2,3) by (meson iv_disjoint_covered)
      next
        case tail
        have "iv_end m \<le> ?c" using m_end m(1) by blast
        then show ?thesis using tail m(3) by (simp add: iv_disjoint_def)
      qed
    qed
  qed
qed

section \<open>Selecting the largest fitting gap\<close>

lemma max_by_duration_cases:
  "max_by_duration best rest = best \<or>
   (max_by_duration best rest \<in> set rest \<and> snd best < snd (max_by_duration best rest))"
proof (induction rest arbitrary: best)
  case Nil
  show ?case by simp
next
  case (Cons item rest)
  show ?case
    using Cons.IH [of item] Cons.IH [of best] by auto
qed

lemma max_by_duration_max:
  "\<forall>x\<in>set (best # rest). snd x \<le> snd (max_by_duration best rest)"
proof (induction rest arbitrary: best)
  case Nil
  show ?case by simp
next
  case (Cons item rest)
  show ?case
    using Cons.IH [of item] Cons.IH [of best] by auto
qed

lemma max_by_duration_first:
  "sorted_wrt (\<lambda>a b. fst a < fst b) (best # rest) \<Longrightarrow>
   \<forall>x\<in>set (best # rest). fst x < fst (max_by_duration best rest) \<longrightarrow>
      snd x < snd (max_by_duration best rest)"
proof (induction rest arbitrary: best)
  case Nil
  show ?case by simp
next
  case (Cons item rest)
  show ?case
  proof (cases "snd best < snd item")
    case True
    then have r: "max_by_duration best (item # rest) = max_by_duration item rest" by simp
    have "sorted_wrt (\<lambda>a b. fst a < fst b) (item # rest)" using Cons.prems by simp
    from Cons.IH [OF this] max_by_duration_max [of item rest] True
    show ?thesis unfolding r by auto
  next
    case False
    then have r: "max_by_duration best (item # rest) = max_by_duration best rest" by simp
    have s: "sorted_wrt (\<lambda>a b. fst a < fst b) (best # rest)" using Cons.prems by simp
    have "fst item < fst (max_by_duration best rest) \<longrightarrow> snd item < snd (max_by_duration best rest)"
    proof
      assume lt: "fst item < fst (max_by_duration best rest)"
      have "fst best < fst item" using Cons.prems by simp
      with lt have "max_by_duration best rest \<noteq> best" by auto
      with max_by_duration_cases [of best rest]
      have "snd best < snd (max_by_duration best rest)" by blast
      with False show "snd item < snd (max_by_duration best rest)" by simp
    qed
    with Cons.IH [OF s] show ?thesis unfolding r by auto
  qed
qed

lemma enumerate_durations:
  "map (\<lambda>(idx, gap). (idx, duration gap)) (enumerate 0 gaps) =
   map (\<lambda>i. (i, duration (gaps ! i))) [0..<length gaps]"
  by (rule nth_equalityI) (simp_all add: nth_enumerate_eq)

lemma fitting_set:
  "set (filter (\<lambda>item. d \<le> snd item) (map (\<lambda>i. (i, duration (gaps ! i))) [0..<length gaps])) =
   {(i, duration (gaps ! i)) | i. i < length gaps \<and> d \<le> duration (gaps ! i)}"
  by auto

lemma fitting_sorted:
  "sorted_wrt (\<lambda>a b. fst a < fst b)
     (filter (\<lambda>item. d \<le> snd item) (map (\<lambda>i. (i, duration (gaps ! i))) [0..<length gaps]))"
  by (rule sorted_wrt_filter) (simp add: sorted_wrt_map)

lemma largest_fitting_gap_index_None:
  "largest_fitting_gap_index gaps d = None \<longleftrightarrow> (\<forall>g\<in>set gaps. duration g < d)"
proof -
  let ?fit = "filter (\<lambda>item. d \<le> snd item) (map (\<lambda>i. (i, duration (gaps ! i))) [0..<length gaps])"
  have "largest_fitting_gap_index gaps d = None \<longleftrightarrow> ?fit = []"
    by (simp add: largest_fitting_gap_index_def enumerate_durations split: list.splits)
  also have "\<dots> \<longleftrightarrow> set ?fit = {}" by (simp only: set_empty)
  also have "\<dots> \<longleftrightarrow> (\<forall>i<length gaps. duration (gaps ! i) < d)"
    unfolding fitting_set by (auto simp: not_le)
  also have "\<dots> \<longleftrightarrow> (\<forall>g\<in>set gaps. duration g < d)"
    by (metis in_set_conv_nth)
  finally show ?thesis .
qed

lemma largest_fitting_gap_index_Some:
  assumes "largest_fitting_gap_index gaps d = Some i"
  shows "i < length gaps"
    and "d \<le> duration (gaps ! i)"
    and "\<forall>j<length gaps. d \<le> duration (gaps ! j) \<longrightarrow> duration (gaps ! j) \<le> duration (gaps ! i)"
    and "\<forall>j<i. d \<le> duration (gaps ! j) \<longrightarrow> duration (gaps ! j) < duration (gaps ! i)"
proof -
  let ?fit = "filter (\<lambda>item. d \<le> snd item) (map (\<lambda>i. (i, duration (gaps ! i))) [0..<length gaps])"
  from assms obtain item rest where fit: "?fit = item # rest"
    and i: "i = fst (max_by_duration item rest)"
    by (auto simp: largest_fitting_gap_index_def enumerate_durations split: list.splits)
  let ?r = "max_by_duration item rest"
  have "?r \<in> set ?fit"
    using max_by_duration_cases [of item rest] fit by auto
  then have r: "?r \<in> {(i, duration (gaps ! i)) | i. i < length gaps \<and> d \<le> duration (gaps ! i)}"
    unfolding fitting_set .
  then have snd_r: "snd ?r = duration (gaps ! i)" and "i < length gaps" "d \<le> duration (gaps ! i)"
    using i by auto
  then show "i < length gaps" "d \<le> duration (gaps ! i)" by simp_all
  have mem: "(j, duration (gaps ! j)) \<in> set (item # rest)" if "j < length gaps" "d \<le> duration (gaps ! j)" for j
  proof -
    have "(j, duration (gaps ! j)) \<in> set ?fit" unfolding fitting_set using that by blast
    then show ?thesis using fit by simp
  qed
  show "\<forall>j<length gaps. d \<le> duration (gaps ! j) \<longrightarrow> duration (gaps ! j) \<le> duration (gaps ! i)"
    using max_by_duration_max [of item rest] mem snd_r by fastforce
  have "sorted_wrt (\<lambda>a b. fst a < fst b) (item # rest)"
    using fitting_sorted [of d gaps] fit by simp
  from max_by_duration_first [OF this]
  have first: "\<And>x. x \<in> set (item # rest) \<Longrightarrow> fst x < fst ?r \<Longrightarrow> snd x < snd ?r" by blast
  show "\<forall>j<i. d \<le> duration (gaps ! j) \<longrightarrow> duration (gaps ! j) < duration (gaps ! i)"
  proof (intro allI impI)
    fix j assume j: "j < i" "d \<le> duration (gaps ! j)"
    then have "(j, duration (gaps ! j)) \<in> set (item # rest)"
      using mem \<open>i < length gaps\<close> by simp
    from first [OF this] show "duration (gaps ! j) < duration (gaps ! i)"
      using j(1) i snd_r by simp
  qed
qed

section \<open>Errors of the timeline composition\<close>

lemma TimelineSlot_new_Inl: "TimelineSlot_new s = Inl e \<Longrightarrow> e = ValidationError"
  by (auto simp: TimelineSlot_new_def split: if_splits)

lemma append_slots_Inl: "append_slots mk xs occupied = Inl e \<Longrightarrow> e = ValidationError"
  by (induction xs arbitrary: occupied) (auto split: sum.splits dest: TimelineSlot_new_Inl)

lemma compose_loop_Inl: "compose_loop occupied cursor timeline = Inl e \<Longrightarrow> e = ValidationError"
  by (induction occupied arbitrary: cursor timeline)
     (auto split: sum.splits if_splits dest: TimelineSlot_new_Inl)

lemma compose_timeline_Inl: "compose_timeline fixed_blocks scheduled = Inl e \<Longrightarrow> e = ValidationError"
  by (auto simp: compose_timeline_def split: sum.splits if_splits prod.splits
      dest: TimelineSlot_new_Inl append_slots_Inl compose_loop_Inl)

lemma build_day_timeline_ValueError:
  "build_day_timeline request = Inl (ValueError m) \<longleftrightarrow>
   check_adjacent (sort_key fixed_block_key (req_fixed_blocks request)) = Some (ValueError m)"
  by (auto simp: build_day_timeline_def sorted_non_overlapping_fixed_blocks_def Let_def
      split: option.splits sum.splits dest: compose_timeline_Inl)

text \<open>
  C4. \<open>build_day_timeline\<close> raises the overlap error exactly when, in the blocks sorted by
  \<open>(start_minute, end_minute)\<close>, some adjacent pair has \<open>curr.start_minute < prev.end_minute\<close>;
  the message names the ids of the first such pair, and no response is returned.
\<close>

theorem overlap_error_iff_adjacent_overlap:
  "(build_day_timeline request = Inl (ValueError m) \<longleftrightarrow>
      (\<exists>i. overlap_at (sort_key fixed_block_key (req_fixed_blocks request)) i \<and>
           (\<forall>j<i. \<not> overlap_at (sort_key fixed_block_key (req_fixed_blocks request)) j) \<and>
           m = overlap_message (sort_key fixed_block_key (req_fixed_blocks request) ! i)
                 (sort_key fixed_block_key (req_fixed_blocks request) ! Suc i)))
   \<and> ((\<exists>msg. build_day_timeline request = Inl (ValueError msg)) \<longleftrightarrow>
        (\<exists>i. overlap_at (sort_key fixed_block_key (req_fixed_blocks request)) i))
   \<and> ((\<exists>i. overlap_at (sort_key fixed_block_key (req_fixed_blocks request)) i) \<longrightarrow>
        (\<forall>response. build_day_timeline request \<noteq> Inr response))"
proof -
  let ?sb = "sort_key fixed_block_key (req_fixed_blocks request)"
  have a: "build_day_timeline request = Inl (ValueError m) \<longleftrightarrow>
      (\<exists>i. overlap_at ?sb i \<and> (\<forall>j<i. \<not> overlap_at ?sb j) \<and>
           m = overlap_message (?sb ! i) (?sb ! Suc i))" for m
    by (simp add: build_day_timeline_ValueError check_adjacent_Some)
  have least: "(\<exists>i. overlap_at ?sb i) \<longleftrightarrow> (\<exists>i. overlap_at ?sb i \<and> (\<forall>j<i. \<not> overlap_at ?sb j))"
    by (metis exists_least_iff)
  have b: "(\<exists>msg. build_day_timeline request = Inl (ValueError msg)) \<longleftrightarrow> (\<exists>i. overlap_at ?sb i)"
    unfolding a least by blast
  have c: "(\<exists>i. overlap_at ?sb i) \<longrightarrow> (\<forall>response. build_day_timeline request \<noteq> Inr response)"
    using b by auto
  from a b c show ?thesis by blast
qed

theorem overlap_error_iff_adjacent_overlap_witness:
  "build_day_timeline
     \<lparr>req_fixed_blocks =
        [\<lparr>fb_id = ''A'', fb_title = ''Block A'', fb_start_minute = 0, fb_end_minute = 60\<rparr>,
         \<lparr>fb_id = ''B'', fb_title = ''Block B'', fb_start_minute = 30, fb_end_minute = 90\<rparr>],
      req_flexible_tasks = [], req_transition_buffer_minutes = 15\<rparr>
   = Inl (ValueError (''Fixed blocks overlap: '' @ [CHR 0x27] @ ''A'' @ [CHR 0x27] @ '' and '' @
            [CHR 0x27] @ ''B'' @ [CHR 0x27]))"
proof -
  let ?A = "\<lparr>fb_id = ''A'', fb_title = ''Block A'', fb_start_minute = 0, fb_end_minute = 60\<rparr>"
  let ?B = "\<lparr>fb_id = ''B'', fb_title = ''Block B'', fb_start_minute = 30, fb_end_minute = 90\<rparr>"
  let ?req = "\<lparr>req_fixed_blocks = [?A, ?B], req_flexible_tasks = [],
               req_transition_buffer_minutes = 15\<rparr>"
  let ?m = "''Fixed blocks overlap: '' @ [CHR 0x27] @ ''A'' @ [CHR 0x27] @ '' and '' @
            [CHR 0x27] @ ''B'' @ [CHR 0x27]"
  have sb: "sort_key fixed_block_key (req_fixed_blocks ?req) = [?A, ?B]"
    by code_simp
  have "overlap_at [?A, ?B] 0 \<and> (\<forall>j<0. \<not> overlap_at [?A, ?B] j) \<and>
        ?m = overlap_message ([?A, ?B] ! 0) ([?A, ?B] ! Suc 0)"
    by (simp add: overlap_at_def overlap_message_def)
  then have "\<exists>i. overlap_at (sort_key fixed_block_key (req_fixed_blocks ?req)) i \<and>
           (\<forall>j<i. \<not> overlap_at (sort_key fixed_block_key (req_fixed_blocks ?req)) j) \<and>
           ?m = overlap_message (sort_key fixed_block_key (req_fixed_blocks ?req) ! i)
                 (sort_key fixed_block_key (req_fixed_blocks ?req) ! Suc i)"
    unfolding sb by (rule exI)
  with overlap_error_iff_adjacent_overlap [of ?req ?m]
  show ?thesis by blast
qed

section \<open>The task loop keeps the pool and the placed tasks apart\<close>

lemma iv_disjoint_sym: "iv_disjoint a b \<Longrightarrow> iv_disjoint b a"
  by (auto simp: iv_disjoint_def)

lemma iv_disjoint_sub_left:
  "iv_disjoint g x \<Longrightarrow> iv_start g \<le> iv_start y \<Longrightarrow> iv_end y \<le> iv_end g \<Longrightarrow> iv_disjoint y x"
  by (auto simp: iv_disjoint_def)

lemma iv_disjoint_sub_right:
  "iv_disjoint x g \<Longrightarrow> iv_start g \<le> iv_start y \<Longrightarrow> iv_end y \<le> iv_end g \<Longrightarrow> iv_disjoint x y"
  by (auto simp: iv_disjoint_def)

lemma split_gap_pairwise:
  assumes pw: "sorted_wrt iv_disjoint ((A @ g # B) @ S)"
    and lo: "iv_start g \<le> iv_start lo" "iv_end lo \<le> iv_end g"
    and hi: "\<forall>h\<in>set H. iv_start g \<le> iv_start h \<and> iv_end h \<le> iv_end g \<and> iv_end lo \<le> iv_start h"
    and H: "length H \<le> 1"
  shows "sorted_wrt iv_disjoint ((A @ B @ H) @ S @ [lo])"
proof -
  from pw have AB: "sorted_wrt iv_disjoint (A @ B)" and S: "sorted_wrt iv_disjoint S"
    and ABS: "\<forall>x\<in>set (A @ B). \<forall>y\<in>set S. iv_disjoint x y"
    and gS: "\<forall>y\<in>set S. iv_disjoint g y"
    and Ag: "\<forall>x\<in>set A. iv_disjoint x g" and gB: "\<forall>y\<in>set B. iv_disjoint g y"
    by (auto simp: sorted_wrt_append)
  have xg: "\<forall>x\<in>set (A @ B) \<union> set S. iv_disjoint x g"
    using Ag gB gS by (auto intro: iv_disjoint_sym)
  have x_lo: "\<forall>x\<in>set (A @ B) \<union> set S. iv_disjoint x lo"
    using xg lo by (blast intro: iv_disjoint_sub_right)
  have x_hi: "\<forall>x\<in>set (A @ B) \<union> set S. \<forall>h\<in>set H. iv_disjoint x h"
    using xg hi by (blast intro: iv_disjoint_sub_right)
  have h_lo: "\<forall>h\<in>set H. iv_disjoint h lo"
    using hi by (auto simp: iv_disjoint_def)
  have HH: "sorted_wrt iv_disjoint H"
    using H by (cases H) auto
  have "sorted_wrt iv_disjoint (A @ B @ H)"
    using AB HH x_hi by (auto simp: sorted_wrt_append)
  moreover have "sorted_wrt iv_disjoint (S @ [lo])"
    using S x_lo by (auto simp: sorted_wrt_append)
  moreover have "\<forall>x\<in>set (A @ B @ H). \<forall>y\<in>set (S @ [lo]). iv_disjoint x y"
    using ABS x_lo x_hi h_lo by (auto intro: iv_disjoint_sym)
  ultimately show ?thesis by (simp only: sorted_wrt_append) blast
qed

lemma assign_task_None:
  "largest_fitting_gap_index (as_available_gaps s) (ft_duration_minutes task) = None \<Longrightarrow>
   assign_task task s = s\<lparr>as_unscheduled_tasks := as_unscheduled_tasks s @ [task]\<rparr>"
  by (simp add: assign_task_def)

lemma assign_task_Some:
  assumes "largest_fitting_gap_index (as_available_gaps s) (ft_duration_minutes task) = Some i"
  shows "as_available_gaps (assign_task task s) =
           take i (as_available_gaps s) @ drop (Suc i) (as_available_gaps s) @
           (if iv_start (as_available_gaps s ! i) + ft_duration_minutes task < iv_end (as_available_gaps s ! i)
            then [\<lparr>iv_start = iv_start (as_available_gaps s ! i) + ft_duration_minutes task,
                   iv_end = iv_end (as_available_gaps s ! i)\<rparr>]
            else [])"
    and "as_scheduled_tasks (assign_task task s) =
           as_scheduled_tasks s @
           [\<lparr>st_id = ft_id task, st_title = ft_title task, st_category = ft_category task,
             st_priority = ft_priority task,
             st_start_minute = iv_start (as_available_gaps s ! i),
             st_end_minute = iv_start (as_available_gaps s ! i) + ft_duration_minutes task\<rparr>]"
    and "as_unscheduled_tasks (assign_task task s) = as_unscheduled_tasks s"
  using assms by (simp_all add: assign_task_def Let_def)

lemma assign_task_inv:
  assumes inv: "assign_inv zones s" and d: "0 < ft_duration_minutes task"
  shows "assign_inv zones (assign_task task s)"
proof (cases "largest_fitting_gap_index (as_available_gaps s) (ft_duration_minutes task)")
  case None
  then show ?thesis using inv by (simp add: assign_task_None assign_inv_def)
next
  case (Some i)
  let ?pool = "as_available_gaps s"
  let ?S = "map task_interval (as_scheduled_tasks s)"
  let ?d = "ft_duration_minutes task"
  let ?g = "?pool ! i"
  let ?A = "take i ?pool" and ?B = "drop (Suc i) ?pool"
  let ?lo = "\<lparr>iv_start = iv_start ?g, iv_end = iv_start ?g + ?d\<rparr>"
  let ?H = "if iv_start ?g + ?d < iv_end ?g then [\<lparr>iv_start = iv_start ?g + ?d, iv_end = iv_end ?g\<rparr>] else []"
  note sel = largest_fitting_gap_index_Some [OF Some]
  have pool: "?pool = ?A @ ?g # ?B" using sel(1) by (rule id_take_nth_drop)
  have fit: "iv_start ?g + ?d \<le> iv_end ?g" using sel(2) by (simp add: duration_def)
  from inv have all: "\<forall>x\<in>set (?pool @ ?S). in_day x \<and> (\<forall>z\<in>set zones. iv_disjoint x z)"
    and pw: "sorted_wrt iv_disjoint (?pool @ ?S)" by (simp_all add: assign_inv_def)
  have g_in: "?g \<in> set ?pool" using sel(1) by simp
  with all have g: "in_day ?g" "\<forall>z\<in>set zones. iv_disjoint ?g z" by auto
  have new_pool: "as_available_gaps (assign_task task s) = ?A @ ?B @ ?H"
    by (rule assign_task_Some(1) [OF Some])
  have new_S: "map task_interval (as_scheduled_tasks (assign_task task s)) = ?S @ [?lo]"
    by (simp add: assign_task_Some(2) [OF Some] task_interval_def)
  have sub: "set (?A @ ?B) \<subseteq> set ?pool"
    using set_take_subset [of i ?pool] set_drop_subset [of "Suc i" ?pool] by auto
  have pw': "sorted_wrt iv_disjoint ((?A @ ?B @ ?H) @ ?S @ [?lo])"
  proof (rule split_gap_pairwise)
    show "sorted_wrt iv_disjoint ((?A @ ?g # ?B) @ ?S)" using pw pool by simp
  qed (use fit d in \<open>auto split: if_splits\<close>)
  have lo_ok: "in_day ?lo \<and> (\<forall>z\<in>set zones. iv_disjoint ?lo z)"
    using g fit d by (auto simp: in_day_def intro: iv_disjoint_sub_left)
  have hi_ok: "\<forall>h\<in>set ?H. in_day h \<and> (\<forall>z\<in>set zones. iv_disjoint h z)"
    using g fit d by (auto simp: in_day_def intro: iv_disjoint_sub_left)
  have all': "\<forall>x\<in>set ((?A @ ?B @ ?H) @ ?S @ [?lo]). in_day x \<and> (\<forall>z\<in>set zones. iv_disjoint x z)"
  proof
    fix x assume "x \<in> set ((?A @ ?B @ ?H) @ ?S @ [?lo])"
    then consider "x \<in> set (?A @ ?B)" | "x \<in> set ?H" | "x \<in> set ?S" | "x = ?lo" by auto
    then show "in_day x \<and> (\<forall>z\<in>set zones. iv_disjoint x z)"
    proof cases
      case 1
      with sub have "x \<in> set (?pool @ ?S)" by auto
      with all show ?thesis by blast
    next
      case 2
      with hi_ok show ?thesis by blast
    next
      case 3
      then have "x \<in> set (?pool @ ?S)" by simp
      with all show ?thesis by blast
    next
      case 4
      with lo_ok show ?thesis by simp
    qed
  qed
  show ?thesis
    unfolding assign_inv_def new_pool new_S using all' pw' by blast
qed

lemma assign_tasks_inv:
  "assign_inv zones s \<Longrightarrow> \<forall>t\<in>set tasks. 0 < ft_duration_minutes t \<Longrightarrow>
   assign_inv zones (assign_tasks tasks s)"
  by (induction tasks arbitrary: s) (simp_all add: assign_task_inv)

section \<open>Valid requests pass the overlap check\<close>

lemma sorted_blocks_chain:
  assumes valid: "list_all FixedBlock_valid blocks" and no: "non_overlapping blocks"
  shows "sorted_wrt (\<lambda>a b. fb_end_minute a \<le> fb_start_minute b) (sort_key fixed_block_key blocks)"
proof -
  let ?sb = "sort_key fixed_block_key blocks"
  have "sorted_wrt blocks_disjoint ?sb"
    using no unfolding non_overlapping_def
    by (subst sorted_wrt_sort_key_sym) (auto simp: blocks_disjoint_def)
  moreover have "sorted_wrt (\<lambda>a b. fixed_block_key a \<le> fixed_block_key b) ?sb"
    using sorted_sort_key [of fixed_block_key blocks] by (simp add: sorted_map_key_wrt)
  ultimately have both: "sorted_wrt (\<lambda>a b. blocks_disjoint a b \<and> fixed_block_key a \<le> fixed_block_key b) ?sb"
    by (rule sorted_wrt_conj)
  show ?thesis
  proof (rule sorted_wrt_set_mono [OF both])
    fix a b assume a: "a \<in> set ?sb" and b: "b \<in> set ?sb"
      and ab: "blocks_disjoint a b \<and> fixed_block_key a \<le> fixed_block_key b"
    from b valid have "fb_start_minute b < fb_end_minute b"
      by (auto simp: list_all_iff FixedBlock_valid_def)
    moreover from ab have "fb_start_minute a \<le> fb_start_minute b"
      by (auto simp: fixed_block_key_def less_eq_prod_def)
    ultimately show "fb_end_minute a \<le> fb_start_minute b"
      using ab by (auto simp: blocks_disjoint_def)
  qed
qed

lemma chain_no_overlap_at:
  "sorted_wrt (\<lambda>a b. fb_end_minute a \<le> fb_start_minute b) bs \<Longrightarrow> \<not> overlap_at bs i"
  unfolding overlap_at_def sorted_wrt_iff_nth_less
  by (metis lessI not_less)

lemma valid_request_sorted:
  assumes "valid_request request"
  shows "sorted_non_overlapping_fixed_blocks (req_fixed_blocks request) = Inr (sorted_fixed_blocks request)"
    and "sorted_wrt (\<lambda>a b. fb_end_minute a \<le> fb_start_minute b) (sorted_fixed_blocks request)"
    and "list_all FixedBlock_valid (sorted_fixed_blocks request)"
    and "set (sorted_fixed_blocks request) = set (req_fixed_blocks request)"
proof -
  from assms have valid: "list_all FixedBlock_valid (req_fixed_blocks request)"
    and no: "non_overlapping (req_fixed_blocks request)"
    by (simp_all add: valid_request_def DayScheduleRequest_valid_def)
  show chain: "sorted_wrt (\<lambda>a b. fb_end_minute a \<le> fb_start_minute b) (sorted_fixed_blocks request)"
    unfolding sorted_fixed_blocks_def by (rule sorted_blocks_chain [OF valid no])
  then have "check_adjacent (sorted_fixed_blocks request) = None"
    by (simp add: check_adjacent_None chain_no_overlap_at)
  then show "sorted_non_overlapping_fixed_blocks (req_fixed_blocks request) = Inr (sorted_fixed_blocks request)"
    by (simp add: sorted_non_overlapping_fixed_blocks_def sorted_fixed_blocks_def)
  show "list_all FixedBlock_valid (sorted_fixed_blocks request)"
    using valid by (simp add: sorted_fixed_blocks_def list_all_iff)
  show "set (sorted_fixed_blocks request) = set (req_fixed_blocks request)"
    by (simp add: sorted_fixed_blocks_def)
qed

section \<open>The state of the task loop for a valid request\<close>

lemma initial_state_inv:
  assumes "list_all FixedBlock_valid fixed" and "0 \<le> req_transition_buffer_minutes request"
  shows "assign_inv (map (buffered_interval (req_transition_buffer_minutes request)) fixed)
           (initial_state fixed request)"
proof -
  note p = available_gaps_props [OF assms]
  have "sorted_wrt iv_disjoint (available_gaps fixed (req_transition_buffer_minutes request))"
    by (rule sorted_wrt_mono_rel [OF _ p(2)]) (simp add: iv_disjoint_def)
  then show ?thesis
    using p(1) p(3) by (simp add: assign_inv_def initial_state_def)
qed

lemma prioritized_tasks_set [simp]:
  "set (prioritized_tasks request) = set (req_flexible_tasks request)"
  by (simp add: prioritized_tasks_def)

lemma state_after_inv:
  assumes "valid_request request"
  shows "assign_inv (map (buffered_interval (req_transition_buffer_minutes request))
           (sorted_fixed_blocks request)) (state_after request k)"
proof -
  from assms have b: "0 \<le> req_transition_buffer_minutes request"
    and tasks: "\<forall>t\<in>set (req_flexible_tasks request). 0 < ft_duration_minutes t"
    by (auto simp: valid_request_def DayScheduleRequest_valid_def list_all_iff FlexibleTask_valid_def)
  have "\<forall>t\<in>set (take k (prioritized_tasks request)). 0 < ft_duration_minutes t"
    using tasks by (auto dest: in_set_takeD)
  with initial_state_inv [OF valid_request_sorted(3) [OF assms] b]
  show ?thesis unfolding state_after_def by (rule assign_tasks_inv)
qed

lemma state_after_all:
  "length (prioritized_tasks request) \<le> k \<Longrightarrow>
   state_after request k =
     assign_tasks (prioritized_tasks request) (initial_state (sorted_fixed_blocks request) request)"
  by (simp add: state_after_def)

section \<open>Tilings\<close>

lemma tiles_snoc:
  "tiles a (xs @ [s]) c \<longleftrightarrow> tiles a xs (ts_start_minute s) \<and> ts_start_minute s < ts_end_minute s \<and> c = ts_end_minute s"
  by (induction xs arbitrary: a) auto

lemma tiles_le: "tiles a xs b \<Longrightarrow> a \<le> b"
  by (induction xs arbitrary: a) force+

lemma tiles_bounds:
  "tiles a xs b \<Longrightarrow> \<forall>s\<in>set xs. a \<le> ts_start_minute s \<and> ts_start_minute s < ts_end_minute s \<and> ts_end_minute s \<le> b"
proof (induction xs arbitrary: a)
  case Nil
  show ?case by simp
next
  case (Cons x xs)
  from Cons.prems have t: "tiles (ts_end_minute x) xs b" and x: "ts_start_minute x = a" "a < ts_end_minute x"
    by simp_all
  from tiles_le [OF t] Cons.IH [OF t] x show ?case by fastforce
qed

lemma tiles_chain:
  "tiles a xs b \<Longrightarrow> sorted_wrt (\<lambda>x y. ts_end_minute x \<le> ts_start_minute y) xs"
proof (induction xs arbitrary: a)
  case Nil
  show ?case by simp
next
  case (Cons x xs)
  from Cons.prems have t: "tiles (ts_end_minute x) xs b" by simp
  from tiles_bounds [OF t] Cons.IH [OF t] show ?case by simp
qed

lemma tiles_successive:
  "tiles a xs b \<Longrightarrow> Suc i < length xs \<Longrightarrow> ts_start_minute (xs ! Suc i) = ts_end_minute (xs ! i)"
proof (induction xs arbitrary: a i)
  case Nil
  then show ?case by simp
next
  case (Cons x xs)
  from Cons.prems have t: "tiles (ts_end_minute x) xs b" by simp
  show ?case
  proof (cases i)
    case 0
    with Cons.prems t show ?thesis by (cases xs) auto
  next
    case (Suc k)
    with Cons.prems Cons.IH [OF t, of k] show ?thesis by simp
  qed
qed

lemma tiles_first_last:
  "tiles a xs b \<Longrightarrow> xs \<noteq> [] \<Longrightarrow> ts_start_minute (hd xs) = a \<and> ts_end_minute (last xs) = b"
proof (induction xs arbitrary: a)
  case Nil
  then show ?case by simp
next
  case (Cons x xs)
  then show ?case by (cases xs) auto
qed

lemma tiles_union:
  "tiles a xs b \<Longrightarrow> (\<Union>s\<in>set xs. {ts_start_minute s ..< ts_end_minute s}) = {a ..< b}"
proof (induction xs arbitrary: a)
  case Nil
  then show ?case by simp
next
  case (Cons x xs)
  from Cons.prems have t: "tiles (ts_end_minute x) xs b" and x: "ts_start_minute x = a" "a < ts_end_minute x"
    by simp_all
  from tiles_le [OF t] have "ts_end_minute x \<le> b" .
  with x have "{a ..< ts_end_minute x} \<union> {ts_end_minute x ..< b} = {a ..< b}" by auto
  with Cons.IH [OF t] x show ?case by simp
qed

section \<open>Composing the timeline\<close>

lemma TimelineSlot_new_ok:
  "0 \<le> ts_start_minute s \<Longrightarrow> ts_start_minute s < ts_end_minute s \<Longrightarrow>
   ts_end_minute s \<le> MINUTES_PER_DAY \<Longrightarrow> TimelineSlot_new s = Inr s"
  by (simp add: TimelineSlot_new_def)

lemma append_slots_ok:
  "\<forall>x\<in>set xs. TimelineSlot_new (mk x) = Inr (mk x) \<Longrightarrow>
   append_slots mk xs occupied = Inr (occupied @ map mk xs)"
  by (induction xs arbitrary: occupied) simp_all

lemma free_slot_simps [simp]:
  "ts_start_minute (free_slot c u) = c" "ts_end_minute (free_slot c u) = u"
  "ts_slot_type (free_slot c u) = Free"
  by (simp_all add: free_slot_def)

lemma compose_loop_ok:
  assumes "sorted_wrt (\<lambda>x y. ts_end_minute x \<le> ts_start_minute y) occupied"
    and "\<forall>s\<in>set occupied. cursor \<le> ts_start_minute s \<and> ts_start_minute s < ts_end_minute s
           \<and> ts_end_minute s \<le> MINUTES_PER_DAY \<and> ts_slot_type s \<noteq> Free"
    and "0 \<le> cursor" and "cursor \<le> MINUTES_PER_DAY" and "tiles a timeline cursor"
  shows "\<exists>c tl. compose_loop occupied cursor timeline = Inr (c, tl) \<and> tiles a tl c
           \<and> 0 \<le> c \<and> c \<le> MINUTES_PER_DAY
           \<and> filter (\<lambda>s. ts_slot_type s \<noteq> Free) tl =
               filter (\<lambda>s. ts_slot_type s \<noteq> Free) timeline @ occupied"
  using assms
proof (induction occupied arbitrary: cursor timeline)
  case Nil
  then show ?case by simp
next
  case (Cons slot rest)
  from Cons.prems(2) have slot: "cursor \<le> ts_start_minute slot" "ts_start_minute slot < ts_end_minute slot"
    "ts_end_minute slot \<le> MINUTES_PER_DAY" "ts_slot_type slot \<noteq> Free" by simp_all
  let ?c = "max cursor (ts_end_minute slot)"
  have c: "?c = ts_end_minute slot" using slot by simp
  have chain: "sorted_wrt (\<lambda>x y. ts_end_minute x \<le> ts_start_minute y) rest"
    using Cons.prems(1) by simp
  have rest: "\<forall>s\<in>set rest. ?c \<le> ts_start_minute s \<and> ts_start_minute s < ts_end_minute s
           \<and> ts_end_minute s \<le> MINUTES_PER_DAY \<and> ts_slot_type s \<noteq> Free"
    using Cons.prems(1,2) c by simp
  have c0: "0 \<le> ?c" "?c \<le> MINUTES_PER_DAY" using Cons.prems(3) slot by simp_all
  show ?case
  proof (cases "cursor < ts_start_minute slot")
    case True
    let ?free = "free_slot cursor (ts_start_minute slot)"
    have new: "TimelineSlot_new ?free = Inr ?free"
      using True Cons.prems(3) slot by (intro TimelineSlot_new_ok) simp_all
    have "tiles a (timeline @ [?free]) (ts_start_minute slot)"
      using Cons.prems(5) True by (simp add: tiles_snoc)
    then have "tiles a ((timeline @ [?free]) @ [slot]) ?c"
      using slot c by (simp only: tiles_snoc) simp
    then have t: "tiles a (timeline @ [?free] @ [slot]) ?c" by simp
    from Cons.IH [OF chain rest c0 t] show ?thesis
      using True new slot(4) by simp
  next
    case False
    with slot have eq: "cursor = ts_start_minute slot" by simp
    have t: "tiles a (timeline @ [slot]) ?c"
      using Cons.prems(5) slot c eq by (simp add: tiles_snoc)
    from Cons.IH [OF chain rest c0 t] show ?thesis
      using False slot(4) by simp
  qed
qed

lemma sort_key_chain:
  assumes pw: "sorted_wrt (\<lambda>a b. en a \<le> st b \<or> en b \<le> st a) xs"
    and pos: "\<forall>x\<in>set xs. (st x :: int) < en x"
  shows "sorted_wrt (\<lambda>a b. en a \<le> st b) (sort_key (\<lambda>x. (st x, en x)) xs)"
proof -
  let ?k = "\<lambda>x. (st x, en x)"
  let ?s = "sort_key ?k xs"
  have "sorted_wrt (\<lambda>a b. en a \<le> st b \<or> en b \<le> st a) ?s"
    using pw by (subst sorted_wrt_sort_key_sym) auto
  moreover have "sorted_wrt (\<lambda>a b. ?k a \<le> ?k b) ?s"
    using sorted_sort_key [of ?k xs] by (simp add: sorted_map_key_wrt)
  ultimately have both: "sorted_wrt (\<lambda>a b. (en a \<le> st b \<or> en b \<le> st a) \<and> ?k a \<le> ?k b) ?s"
    by (rule sorted_wrt_conj)
  show ?thesis
  proof (rule sorted_wrt_set_mono [OF both])
    fix a b assume "a \<in> set ?s" and b: "b \<in> set ?s"
      and ab: "(en a \<le> st b \<or> en b \<le> st a) \<and> ?k a \<le> ?k b"
    from b pos have "st b < en b" by simp
    moreover from ab have "st a \<le> st b" by (auto simp: less_eq_prod_def)
    ultimately show "en a \<le> st b" using ab by auto
  qed
qed

lemma slot_key_eq: "slot_key = (\<lambda>x. (ts_start_minute x, ts_end_minute x))"
  by (rule ext) (simp add: slot_key_def)

lemma fixed_slot_simps [simp]:
  "ts_start_minute (fixed_slot f) = fb_start_minute f" "ts_end_minute (fixed_slot f) = fb_end_minute f"
  "ts_slot_type (fixed_slot f) = Fixed" "ts_id (fixed_slot f) = fb_id f" "ts_title (fixed_slot f) = fb_title f"
  by (simp_all add: fixed_slot_def)

lemma task_slot_simps [simp]:
  "ts_start_minute (task_slot t) = st_start_minute t" "ts_end_minute (task_slot t) = st_end_minute t"
  "ts_slot_type (task_slot t) = Task" "ts_id (task_slot t) = st_id t" "ts_title (task_slot t) = st_title t"
  by (simp_all add: task_slot_def)

lemma compose_timeline_ok:
  assumes valid: "list_all FixedBlock_valid fixed"
    and chain: "sorted_wrt (\<lambda>a b. fb_end_minute a \<le> fb_start_minute b) fixed"
    and b: "0 \<le> b"
    and inv: "assign_inv (map (buffered_interval b) fixed) s"
  shows "\<exists>tl. compose_timeline fixed (as_scheduled_tasks s) = Inr tl \<and> tiles 0 tl MINUTES_PER_DAY
           \<and> filter (\<lambda>x. ts_slot_type x \<noteq> Free) tl =
               sort_key slot_key (map fixed_slot fixed @ map task_slot (as_scheduled_tasks s))"
proof -
  let ?sched = "as_scheduled_tasks s"
  let ?occ = "map fixed_slot fixed @ map task_slot ?sched"
  have v: "\<And>f. f \<in> set fixed \<Longrightarrow> FixedBlock_valid f"
    using valid by (simp add: list_all_iff)
  have fv: "\<And>f. f \<in> set fixed \<Longrightarrow> 0 \<le> fb_start_minute f \<and> fb_start_minute f < fb_end_minute f
      \<and> fb_end_minute f \<le> MINUTES_PER_DAY"
    using v unfolding FixedBlock_valid_def by (metis not_le)
  from inv have t_ok: "\<And>t. t \<in> set ?sched \<Longrightarrow> in_day (task_interval t)
        \<and> (\<forall>f\<in>set fixed. iv_disjoint (task_interval t) (buffered_interval b f))"
    and t_pw: "sorted_wrt iv_disjoint (map task_interval ?sched)"
    by (auto simp: assign_inv_def sorted_wrt_append)
  have tv: "\<And>t. t \<in> set ?sched \<Longrightarrow> 0 \<le> st_start_minute t \<and> st_start_minute t < st_end_minute t
      \<and> st_end_minute t \<le> MINUTES_PER_DAY"
    using t_ok by (auto simp: in_day_def task_interval_def)
  have cross: "fb_end_minute f \<le> st_start_minute t \<or> st_end_minute t \<le> fb_start_minute f"
    if "f \<in> set fixed" "t \<in> set ?sched" for f t
  proof -
    from t_ok that have "iv_disjoint (task_interval t) (buffered_interval b f)" by blast
    with buffered_interval_bounds(2,3) [OF v [OF that(1)] b]
    show ?thesis by (auto simp: iv_disjoint_def task_interval_def)
  qed
  have occ1: "append_slots fixed_slot fixed [] = Inr (map fixed_slot fixed)"
    using fv by (subst append_slots_ok) (auto intro!: TimelineSlot_new_ok)
  have occ2: "append_slots task_slot ?sched (map fixed_slot fixed) = Inr ?occ"
    using tv by (subst append_slots_ok) (auto intro!: TimelineSlot_new_ok)
  have pw: "sorted_wrt (\<lambda>x y. ts_end_minute x \<le> ts_start_minute y \<or> ts_end_minute y \<le> ts_start_minute x) ?occ"
  proof -
    have "sorted_wrt (\<lambda>x y. ts_end_minute x \<le> ts_start_minute y \<or> ts_end_minute y \<le> ts_start_minute x)
            (map fixed_slot fixed)"
      using chain by (simp add: sorted_wrt_map sorted_wrt_mono_rel [OF _ chain])
    moreover have "sorted_wrt (\<lambda>x y. ts_end_minute x \<le> ts_start_minute y \<or> ts_end_minute y \<le> ts_start_minute x)
            (map task_slot ?sched)"
      using t_pw by (simp add: sorted_wrt_map iv_disjoint_def task_interval_def)
    ultimately show ?thesis using cross by (auto simp: sorted_wrt_append)
  qed
  have pos: "\<forall>x\<in>set ?occ. ts_start_minute x < ts_end_minute x"
    using fv tv by auto
  have sorted_chain: "sorted_wrt (\<lambda>x y. ts_end_minute x \<le> ts_start_minute y) (sort_key slot_key ?occ)"
    unfolding slot_key_eq by (rule sort_key_chain [OF pw pos])
  have occ_props: "\<forall>x\<in>set (sort_key slot_key ?occ). 0 \<le> ts_start_minute x \<and> ts_start_minute x < ts_end_minute x
           \<and> ts_end_minute x \<le> MINUTES_PER_DAY \<and> ts_slot_type x \<noteq> Free"
    using fv tv by auto
  have "tiles 0 [] 0" by simp
  from compose_loop_ok [OF sorted_chain occ_props _ _ this]
  obtain c tl where loop: "compose_loop (sort_key slot_key ?occ) 0 [] = Inr (c, tl)"
    and tl: "tiles 0 tl c" and c: "0 \<le> c" "c \<le> MINUTES_PER_DAY"
    and flt: "filter (\<lambda>x. ts_slot_type x \<noteq> Free) tl = sort_key slot_key ?occ"
    by (auto simp: MINUTES_PER_DAY_eq)
  show ?thesis
  proof (cases "c < MINUTES_PER_DAY")
    case True
    let ?free = "free_slot c MINUTES_PER_DAY"
    have new: "TimelineSlot_new ?free = Inr ?free"
      using True c by (intro TimelineSlot_new_ok) simp_all
    have "tiles 0 (tl @ [?free]) MINUTES_PER_DAY"
      using tl True by (simp add: tiles_snoc)
    then show ?thesis
      using True new loop flt by (simp add: compose_timeline_def occ1 occ2)
  next
    case False
    with c have "c = MINUTES_PER_DAY" by simp
    then show ?thesis
      using tl loop flt by (simp add: compose_timeline_def occ1 occ2)
  qed
qed

section \<open>The response to a valid request\<close>

lemma build_day_timeline_valid:
  assumes valid: "valid_request request"
  shows "\<exists>tl. build_day_timeline request =
           Inr \<lparr>resp_day_start_minute = 0, resp_day_end_minute = MINUTES_PER_DAY,
                resp_transition_buffer_minutes = req_transition_buffer_minutes request,
                resp_timeline = tl,
                resp_scheduled_tasks =
                  sort_key st_start_minute
                    (as_scheduled_tasks (state_after request (length (prioritized_tasks request)))),
                resp_unscheduled_tasks =
                  as_unscheduled_tasks (state_after request (length (prioritized_tasks request)))\<rparr>
         \<and> tiles 0 tl MINUTES_PER_DAY
         \<and> filter (\<lambda>x. ts_slot_type x \<noteq> Free) tl =
             sort_key slot_key
               (map fixed_slot (sorted_fixed_blocks request) @
                map task_slot (as_scheduled_tasks (state_after request (length (prioritized_tasks request)))))"
proof -
  let ?final = "state_after request (length (prioritized_tasks request))"
  note s = valid_request_sorted [OF valid]
  from valid have b: "0 \<le> req_transition_buffer_minutes request"
    by (simp add: valid_request_def DayScheduleRequest_valid_def)
  from compose_timeline_ok [OF s(3) s(2) b state_after_inv [OF valid]]
  obtain tl where tl: "compose_timeline (sorted_fixed_blocks request) (as_scheduled_tasks ?final) = Inr tl"
    "tiles 0 tl MINUTES_PER_DAY"
    "filter (\<lambda>x. ts_slot_type x \<noteq> Free) tl =
       sort_key slot_key (map fixed_slot (sorted_fixed_blocks request) @ map task_slot (as_scheduled_tasks ?final))"
    by blast
  have final: "assign_tasks (prioritized_tasks request) (initial_state (sorted_fixed_blocks request) request) = ?final"
    by (simp add: state_after_all)
  have "build_day_timeline request =
           Inr \<lparr>resp_day_start_minute = 0, resp_day_end_minute = MINUTES_PER_DAY,
                resp_transition_buffer_minutes = req_transition_buffer_minutes request,
                resp_timeline = tl,
                resp_scheduled_tasks = sort_key st_start_minute (as_scheduled_tasks ?final),
                resp_unscheduled_tasks = as_unscheduled_tasks ?final\<rparr>"
    unfolding build_day_timeline_def s(1) by (simp add: final tl(1) Let_def)
  with tl(2,3) show ?thesis by blast
qed

lemma example_request_valid: "valid_request example_request"
  by code_simp

text \<open>
  C1. For every valid request \<open>build_day_timeline\<close> returns a response whose timeline tiles
  \<open>[0, 1440)\<close>: it starts at 0, ends at 1440, each slot starts where the previous one ends,
  the slots are non-empty and pairwise non-overlapping, and their union is the whole day.
\<close>

theorem timeline_partitions_day:
  assumes "valid_request request"
  shows "\<exists>response. build_day_timeline request = Inr response
           \<and> resp_timeline response \<noteq> []
           \<and> ts_start_minute (hd (resp_timeline response)) = 0
           \<and> ts_end_minute (last (resp_timeline response)) = 1440
           \<and> (\<forall>i. Suc i < length (resp_timeline response) \<longrightarrow>
                 ts_start_minute (resp_timeline response ! Suc i) = ts_end_minute (resp_timeline response ! i))
           \<and> (\<forall>i j. i < j \<and> j < length (resp_timeline response) \<longrightarrow>
                 ts_end_minute (resp_timeline response ! i) \<le> ts_start_minute (resp_timeline response ! j))
           \<and> (\<forall>s\<in>set (resp_timeline response). ts_start_minute s < ts_end_minute s)
           \<and> (\<Union>s\<in>set (resp_timeline response). {ts_start_minute s ..< ts_end_minute s}) = {0 ..< 1440}"
proof -
  from build_day_timeline_valid [OF assms]
  obtain response where r: "build_day_timeline request = Inr response"
    and t: "tiles 0 (resp_timeline response) 1440"
    by (auto simp: MINUTES_PER_DAY_eq)
  have ne: "resp_timeline response \<noteq> []" using t by auto
  have "\<forall>i j. i < j \<and> j < length (resp_timeline response) \<longrightarrow>
          ts_end_minute (resp_timeline response ! i) \<le> ts_start_minute (resp_timeline response ! j)"
    using tiles_chain [OF t] by (simp add: sorted_wrt_iff_nth_less)
  moreover have "\<forall>i. Suc i < length (resp_timeline response) \<longrightarrow>
          ts_start_minute (resp_timeline response ! Suc i) = ts_end_minute (resp_timeline response ! i)"
    using tiles_successive [OF t] by blast
  moreover have "\<forall>s\<in>set (resp_timeline response). ts_start_minute s < ts_end_minute s"
    using tiles_bounds [OF t] by blast
  ultimately show ?thesis
    using r ne tiles_first_last [OF t ne] tiles_union [OF t] by blast
qed

theorem timeline_partitions_day_witness:
  "valid_request example_request \<and>
   (\<exists>response. build_day_timeline example_request = Inr response
      \<and> resp_timeline response \<noteq> []
      \<and> ts_start_minute (hd (resp_timeline response)) = 0
      \<and> ts_end_minute (last (resp_timeline response)) = 1440
      \<and> (\<forall>i. Suc i < length (resp_timeline response) \<longrightarrow>
            ts_start_minute (resp_timeline response ! Suc i) = ts_end_minute (resp_timeline response ! i))
      \<and> (\<forall>i j. i < j \<and> j < length (resp_timeline response) \<longrightarrow>
            ts_end_minute (resp_timeline response ! i) \<le> ts_start_minute (resp_timeline response ! j))
      \<and> (\<forall>s\<in>set (resp_timeline response). ts_start_minute s < ts_end_minute s)
      \<and> (\<Union>s\<in>set (resp_timeline response). {ts_start_minute s ..< ts_end_minute s}) = {0 ..< 1440})"
proof -
  note v = example_request_valid
  from timeline_partitions_day [OF v] v show ?thesis by (rule_tac conjI)
qed

section \<open>Placed tasks, fixed blocks and buffers\<close>

lemma final_scheduled_facts:
  assumes valid: "valid_request request"
  shows "\<forall>t\<in>set (as_scheduled_tasks (state_after request k)).
           in_day (task_interval t) \<and>
           (\<forall>f\<in>set (req_fixed_blocks request).
              iv_disjoint (task_interval t) (buffered_interval (req_transition_buffer_minutes request) f))"
    and "sorted_wrt (\<lambda>x y. iv_disjoint (task_interval x) (task_interval y))
           (as_scheduled_tasks (state_after request k))"
  using state_after_inv [OF valid, of k] valid_request_sorted(4) [OF valid]
  by (auto simp: assign_inv_def sorted_wrt_append sorted_wrt_map)

lemma response_scheduled_pairwise:
  assumes "sorted_wrt (\<lambda>x y. iv_disjoint (task_interval x) (task_interval y)) sched"
    and "i < length sched" and "j < length sched" and "i \<noteq> j"
  shows "st_end_minute (sort_key st_start_minute sched ! i) \<le> st_start_minute (sort_key st_start_minute sched ! j)
       \<or> st_end_minute (sort_key st_start_minute sched ! j) \<le> st_start_minute (sort_key st_start_minute sched ! i)"
proof -
  let ?s = "sort_key st_start_minute sched"
  have "sorted_wrt (\<lambda>x y. iv_disjoint (task_interval x) (task_interval y)) ?s"
    using assms(1) by (subst sorted_wrt_sort_key_sym) (auto intro: iv_disjoint_sym)
  then have *: "\<And>a b. a < b \<Longrightarrow> b < length ?s \<Longrightarrow> iv_disjoint (task_interval (?s ! a)) (task_interval (?s ! b))"
    by (simp add: sorted_wrt_iff_nth_less)
  from assms(4) consider "i < j" | "j < i" by linarith
  then show ?thesis
  proof cases
    case 1
    from * [OF 1] assms(3) show ?thesis by (auto simp: iv_disjoint_def task_interval_def)
  next
    case 2
    from * [OF 2] assms(2) show ?thesis by (auto simp: iv_disjoint_def task_interval_def)
  qed
qed

text \<open>
  C9. For every valid request with buffer \<open>b\<close>, no scheduled task of the response shares a
  minute with the buffered interval \<open>[max(0, start - b), min(1440, end + b))\<close> of any fixed block.
\<close>

theorem scheduled_tasks_avoid_buffers:
  assumes "valid_request request"
  shows "\<exists>response. build_day_timeline request = Inr response
           \<and> (\<forall>t\<in>set (resp_scheduled_tasks response). \<forall>f\<in>set (req_fixed_blocks request).
                 st_end_minute t \<le> max 0 (fb_start_minute f - req_transition_buffer_minutes request)
               \<or> min 1440 (fb_end_minute f + req_transition_buffer_minutes request) \<le> st_start_minute t)"
proof -
  from build_day_timeline_valid [OF assms]
  obtain response where r: "build_day_timeline request = Inr response"
    and s: "resp_scheduled_tasks response =
      sort_key st_start_minute (as_scheduled_tasks (state_after request (length (prioritized_tasks request))))"
    by auto
  have "\<forall>t\<in>set (resp_scheduled_tasks response). \<forall>f\<in>set (req_fixed_blocks request).
          st_end_minute t \<le> max 0 (fb_start_minute f - req_transition_buffer_minutes request)
        \<or> min 1440 (fb_end_minute f + req_transition_buffer_minutes request) \<le> st_start_minute t"
    using final_scheduled_facts(1) [OF assms, of "length (prioritized_tasks request)"]
    unfolding s set_sort
    by (simp add: iv_disjoint_def task_interval_def buffered_interval_def MINUTES_PER_DAY_eq)
  with r show ?thesis by blast
qed

theorem scheduled_tasks_avoid_buffers_witness:
  "valid_request example_request \<and>
   (\<exists>response. build_day_timeline example_request = Inr response
      \<and> resp_scheduled_tasks response \<noteq> []
      \<and> (\<forall>t\<in>set (resp_scheduled_tasks response). \<forall>f\<in>set (req_fixed_blocks example_request).
            st_end_minute t \<le> max 0 (fb_start_minute f - req_transition_buffer_minutes example_request)
          \<or> min 1440 (fb_end_minute f + req_transition_buffer_minutes example_request) \<le> st_start_minute t))"
proof -
  from scheduled_tasks_avoid_buffers [OF example_request_valid]
  obtain response where r: "build_day_timeline example_request = Inr response"
    and p: "\<forall>t\<in>set (resp_scheduled_tasks response). \<forall>f\<in>set (req_fixed_blocks example_request).
            st_end_minute t \<le> max 0 (fb_start_minute f - req_transition_buffer_minutes example_request)
          \<or> min 1440 (fb_end_minute f + req_transition_buffer_minutes example_request) \<le> st_start_minute t"
    by blast
  have "length (case build_day_timeline example_request of Inr x \<Rightarrow> resp_scheduled_tasks x | Inl e \<Rightarrow> []) = 2"
    by code_simp
  with r have "resp_scheduled_tasks response \<noteq> []" by auto
  with r p example_request_valid show ?thesis by blast
qed

text \<open>
  C5. For every valid request, no scheduled task of the response overlaps a fixed block,
  and no two scheduled tasks of the response overlap.
\<close>

theorem scheduled_tasks_disjoint:
  assumes "valid_request request"
  shows "\<exists>response. build_day_timeline request = Inr response
           \<and> (\<forall>t\<in>set (resp_scheduled_tasks response). \<forall>f\<in>set (req_fixed_blocks request).
                 st_end_minute t \<le> fb_start_minute f \<or> fb_end_minute f \<le> st_start_minute t)
           \<and> (\<forall>i j. i < length (resp_scheduled_tasks response) \<and> j < length (resp_scheduled_tasks response)
                   \<and> i \<noteq> j \<longrightarrow>
                 st_end_minute (resp_scheduled_tasks response ! i) \<le> st_start_minute (resp_scheduled_tasks response ! j)
               \<or> st_end_minute (resp_scheduled_tasks response ! j) \<le> st_start_minute (resp_scheduled_tasks response ! i))"
proof -
  let ?sched = "as_scheduled_tasks (state_after request (length (prioritized_tasks request)))"
  let ?b = "req_transition_buffer_minutes request"
  from build_day_timeline_valid [OF assms]
  obtain response where r: "build_day_timeline request = Inr response"
    and s: "resp_scheduled_tasks response = sort_key st_start_minute ?sched"
    by auto
  note facts = final_scheduled_facts [OF assms, of "length (prioritized_tasks request)"]
  from assms have b: "0 \<le> ?b" and v: "\<And>f. f \<in> set (req_fixed_blocks request) \<Longrightarrow> FixedBlock_valid f"
    by (simp_all add: valid_request_def DayScheduleRequest_valid_def list_all_iff)
  have fixed: "\<forall>t\<in>set (resp_scheduled_tasks response). \<forall>f\<in>set (req_fixed_blocks request).
                 st_end_minute t \<le> fb_start_minute f \<or> fb_end_minute f \<le> st_start_minute t"
  proof (intro ballI)
    fix t f assume t: "t \<in> set (resp_scheduled_tasks response)" and f: "f \<in> set (req_fixed_blocks request)"
    from t have "t \<in> set ?sched" unfolding s by simp
    with facts(1) f have "iv_disjoint (task_interval t) (buffered_interval ?b f)" by blast
    with buffered_interval_bounds(2,3) [OF v [OF f] b]
    show "st_end_minute t \<le> fb_start_minute f \<or> fb_end_minute f \<le> st_start_minute t"
      by (auto simp: iv_disjoint_def task_interval_def)
  qed
  have "\<forall>i j. i < length (resp_scheduled_tasks response) \<and> j < length (resp_scheduled_tasks response)
                   \<and> i \<noteq> j \<longrightarrow>
                 st_end_minute (resp_scheduled_tasks response ! i) \<le> st_start_minute (resp_scheduled_tasks response ! j)
               \<or> st_end_minute (resp_scheduled_tasks response ! j) \<le> st_start_minute (resp_scheduled_tasks response ! i)"
    unfolding s using response_scheduled_pairwise [OF facts(2)] by simp
  with r fixed show ?thesis by blast
qed

theorem scheduled_tasks_disjoint_witness:
  "valid_request example_request \<and>
   (\<exists>response. build_day_timeline example_request = Inr response
      \<and> length (resp_scheduled_tasks response) = 2
      \<and> (\<forall>t\<in>set (resp_scheduled_tasks response). \<forall>f\<in>set (req_fixed_blocks example_request).
            st_end_minute t \<le> fb_start_minute f \<or> fb_end_minute f \<le> st_start_minute t)
      \<and> (\<forall>i j. i < length (resp_scheduled_tasks response) \<and> j < length (resp_scheduled_tasks response)
              \<and> i \<noteq> j \<longrightarrow>
            st_end_minute (resp_scheduled_tasks response ! i) \<le> st_start_minute (resp_scheduled_tasks response ! j)
          \<or> st_end_minute (resp_scheduled_tasks response ! j) \<le> st_start_minute (resp_scheduled_tasks response ! i)))"
proof -
  from scheduled_tasks_disjoint [OF example_request_valid]
  obtain response where r: "build_day_timeline example_request = Inr response"
    and p: "\<forall>t\<in>set (resp_scheduled_tasks response). \<forall>f\<in>set (req_fixed_blocks example_request).
            st_end_minute t \<le> fb_start_minute f \<or> fb_end_minute f \<le> st_start_minute t"
      "\<forall>i j. i < length (resp_scheduled_tasks response) \<and> j < length (resp_scheduled_tasks response)
              \<and> i \<noteq> j \<longrightarrow>
            st_end_minute (resp_scheduled_tasks response ! i) \<le> st_start_minute (resp_scheduled_tasks response ! j)
          \<or> st_end_minute (resp_scheduled_tasks response ! j) \<le> st_start_minute (resp_scheduled_tasks response ! i)"
    by blast
  have "length (case build_day_timeline example_request of Inr x \<Rightarrow> resp_scheduled_tasks x | Inl e \<Rightarrow> []) = 2"
    by code_simp
  with r have "length (resp_scheduled_tasks response) = 2" by auto
  with r p example_request_valid show ?thesis by blast
qed

section \<open>No empty interval\<close>

lemma assign_task_new_gap:
  "\<forall>g\<in>set (as_available_gaps (assign_task task s)).
     g \<in> set (as_available_gaps s) \<or> iv_start g < iv_end g"
proof (cases "largest_fitting_gap_index (as_available_gaps s) (ft_duration_minutes task)")
  case None
  then show ?thesis by (simp add: assign_task_None)
next
  case (Some i)
  show ?thesis
    unfolding assign_task_Some(1) [OF Some]
    by (auto dest: in_set_takeD in_set_dropD)
qed

lemma compose_loop_new_slot:
  "compose_loop occupied cursor timeline = Inr (c, out) \<Longrightarrow>
   \<forall>s\<in>set out. s \<in> set timeline \<or> s \<in> set occupied \<or>
      (ts_slot_type s = Free \<and> ts_start_minute s < ts_end_minute s)"
proof (induction occupied arbitrary: cursor timeline)
  case Nil
  then show ?case by simp
next
  case (Cons slot rest)
  show ?case
  proof (cases "cursor < ts_start_minute slot")
    case True
    from Cons.prems True obtain free where
      new: "TimelineSlot_new (free_slot cursor (ts_start_minute slot)) = Inr free"
      and loop: "compose_loop rest (max cursor (ts_end_minute slot)) (timeline @ [free] @ [slot]) = Inr (c, out)"
      by (auto split: sum.splits)
    from new have free: "free = free_slot cursor (ts_start_minute slot)"
      by (auto simp: TimelineSlot_new_def split: if_splits)
    from Cons.IH [OF loop] show ?thesis using free True by auto
  next
    case False
    with Cons.prems have "compose_loop rest (max cursor (ts_end_minute slot)) (timeline @ [slot]) = Inr (c, out)"
      by simp
    from Cons.IH [OF this] show ?thesis by auto
  qed
qed

text \<open>
  C10. For every valid request, every gap of the pool after any number of iterations of
  the task loop and every slot of the returned timeline is a non-empty interval within
  \<open>[0, 1440]\<close>. Whatever the state, a gap that an iteration adds to the pool is non-empty,
  and so is a free slot that the timeline walk emits.
\<close>

theorem no_empty_interval:
  assumes "valid_request request"
  shows "(\<forall>k. \<forall>g\<in>set (as_available_gaps (state_after request k)).
            0 \<le> iv_start g \<and> iv_start g < iv_end g \<and> iv_end g \<le> 1440)
       \<and> (\<exists>response. build_day_timeline request = Inr response
            \<and> (\<forall>s\<in>set (resp_timeline response).
                  0 \<le> ts_start_minute s \<and> ts_start_minute s < ts_end_minute s \<and> ts_end_minute s \<le> 1440))
       \<and> (\<forall>task s. \<forall>g\<in>set (as_available_gaps (assign_task task s)).
            g \<in> set (as_available_gaps s) \<or> iv_start g < iv_end g)
       \<and> (\<forall>occupied cursor timeline c out.
            compose_loop occupied cursor timeline = Inr (c, out) \<longrightarrow>
            (\<forall>s\<in>set out. s \<in> set timeline \<or> s \<in> set occupied \<or>
               (ts_slot_type s = Free \<and> ts_start_minute s < ts_end_minute s)))"
proof -
  have pool: "\<forall>k. \<forall>g\<in>set (as_available_gaps (state_after request k)).
            0 \<le> iv_start g \<and> iv_start g < iv_end g \<and> iv_end g \<le> 1440"
    using state_after_inv [OF assms] by (auto simp: assign_inv_def in_day_def MINUTES_PER_DAY_eq)
  from build_day_timeline_valid [OF assms]
  obtain response where r: "build_day_timeline request = Inr response"
    and t: "tiles 0 (resp_timeline response) 1440"
    by (auto simp: MINUTES_PER_DAY_eq)
  have "\<forall>s\<in>set (resp_timeline response).
          0 \<le> ts_start_minute s \<and> ts_start_minute s < ts_end_minute s \<and> ts_end_minute s \<le> 1440"
    using tiles_bounds [OF t] by blast
  with r have resp: "\<exists>response. build_day_timeline request = Inr response
            \<and> (\<forall>s\<in>set (resp_timeline response).
                  0 \<le> ts_start_minute s \<and> ts_start_minute s < ts_end_minute s \<and> ts_end_minute s \<le> 1440)"
    by blast
  from pool resp assign_task_new_gap compose_loop_new_slot show ?thesis by blast
qed

theorem no_empty_interval_witness:
  "valid_request example_request
   \<and> as_available_gaps (state_after example_request 2) =
       [\<lparr>iv_start = 585, iv_end = 705\<rparr>, \<lparr>iv_start = 915, iv_end = 1440\<rparr>,
        \<lparr>iv_start = 60, iv_end = 525\<rparr>]
   \<and> list_all in_day (as_available_gaps (state_after example_request 2))
   \<and> (\<exists>response. build_day_timeline example_request = Inr response
         \<and> (\<forall>s\<in>set (resp_timeline response).
               0 \<le> ts_start_minute s \<and> ts_start_minute s < ts_end_minute s \<and> ts_end_minute s \<le> 1440))"
proof -
  have pool: "as_available_gaps (state_after example_request 2) =
       [\<lparr>iv_start = 585, iv_end = 705\<rparr>, \<lparr>iv_start = 915, iv_end = 1440\<rparr>,
        \<lparr>iv_start = 60, iv_end = 525\<rparr>]"
    by code_simp
  note all = no_empty_interval [OF example_request_valid]
  from all have "\<forall>g\<in>set (as_available_gaps (state_after example_request 2)).
            0 \<le> iv_start g \<and> iv_start g < iv_end g \<and> iv_end g \<le> 1440"
    by blast
  then have "list_all in_day (as_available_gaps (state_after example_request 2))"
    by (simp add: list_all_iff in_day_def MINUTES_PER_DAY_eq)
  with all pool example_request_valid show ?thesis by blast
qed

section \<open>Fixed blocks in the timeline\<close>

lemma sorted_wrt_irrefl_distinct_on:
  "sorted_wrt P xs \<Longrightarrow> \<forall>x\<in>set xs. \<not> P x x \<Longrightarrow> distinct xs"
  by (induction xs) auto

lemma fixed_slots_of_timeline:
  assumes valid: "valid_request request"
    and flt: "filter (\<lambda>x. ts_slot_type x \<noteq> Free) out =
             sort_key slot_key (map fixed_slot (sorted_fixed_blocks request) @ map task_slot sched)"
  shows "filter (\<lambda>x. ts_slot_type x = Fixed) out = map fixed_slot (sorted_fixed_blocks request)"
proof -
  let ?fixed = "sorted_fixed_blocks request"
  have "filter (\<lambda>x. ts_slot_type x = Fixed) out =
        filter (\<lambda>x. ts_slot_type x = Fixed) (filter (\<lambda>x. ts_slot_type x \<noteq> Free) out)"
    by (simp add: conj_commute cong: conj_cong)
  also have "\<dots> = sort_key slot_key (filter (\<lambda>x. ts_slot_type x = Fixed) (map fixed_slot ?fixed @ map task_slot sched))"
    unfolding flt by (rule filter_sort)
  also have "filter (\<lambda>x. ts_slot_type x = Fixed) (map fixed_slot ?fixed @ map task_slot sched) = map fixed_slot ?fixed"
    by (simp add: filter_map o_def)
  also have "sort_key slot_key (map fixed_slot ?fixed) = map fixed_slot ?fixed"
  proof (rule sort_key_id_if_sorted)
    have "map slot_key (map fixed_slot ?fixed) = map fixed_block_key ?fixed"
      by (simp add: slot_key_def fixed_block_key_def)
    moreover have "sorted (map fixed_block_key ?fixed)"
      unfolding sorted_fixed_blocks_def by (rule sorted_sort_key)
    ultimately show "sorted (map slot_key (map fixed_slot ?fixed))"
      by (simp only:)
  qed
  finally show ?thesis .
qed

lemma sorted_fixed_blocks_distinct:
  assumes "valid_request request"
  shows "distinct (sorted_fixed_blocks request)"
proof (rule sorted_wrt_irrefl_distinct_on [OF valid_request_sorted(2) [OF assms]])
  show "\<forall>x\<in>set (sorted_fixed_blocks request). \<not> fb_end_minute x \<le> fb_start_minute x"
    using valid_request_sorted(3) [OF assms] by (simp add: list_all_iff FixedBlock_valid_def)
qed

text \<open>
  C8. For every valid request and every fixed block in it, the returned timeline contains
  exactly one slot of type fixed that carries that block's id, title, start_minute and
  end_minute; the fixed slots of the timeline are the sorted fixed blocks, bounds unchanged.
\<close>

theorem fixed_blocks_kept:
  assumes "valid_request request"
  shows "\<exists>response. build_day_timeline request = Inr response
           \<and> filter (\<lambda>s. ts_slot_type s = Fixed) (resp_timeline response) =
               map fixed_slot (sort_key fixed_block_key (req_fixed_blocks request))
           \<and> (\<forall>b\<in>set (req_fixed_blocks request).
                 length (filter (\<lambda>s. ts_slot_type s = Fixed \<and> ts_id s = fb_id b \<and> ts_title s = fb_title b
                                      \<and> ts_start_minute s = fb_start_minute b
                                      \<and> ts_end_minute s = fb_end_minute b)
                           (resp_timeline response)) = 1)"
proof -
  let ?fixed = "sorted_fixed_blocks request"
  from build_day_timeline_valid [OF assms]
  obtain response where r: "build_day_timeline request = Inr response"
    and flt: "filter (\<lambda>x. ts_slot_type x \<noteq> Free) (resp_timeline response) =
      sort_key slot_key (map fixed_slot ?fixed @
        map task_slot (as_scheduled_tasks (state_after request (length (prioritized_tasks request)))))"
    by auto
  note fx = fixed_slots_of_timeline [OF assms flt]
  have one: "length (filter (\<lambda>s. ts_slot_type s = Fixed \<and> ts_id s = fb_id b \<and> ts_title s = fb_title b
                                      \<and> ts_start_minute s = fb_start_minute b
                                      \<and> ts_end_minute s = fb_end_minute b)
                           (resp_timeline response)) = 1"
    if b: "b \<in> set (req_fixed_blocks request)" for b
  proof -
    let ?P = "\<lambda>s. ts_id s = fb_id b \<and> ts_title s = fb_title b
                \<and> ts_start_minute s = fb_start_minute b \<and> ts_end_minute s = fb_end_minute b"
    have "filter (\<lambda>s. ts_slot_type s = Fixed \<and> ?P s) (resp_timeline response) =
          filter ?P (filter (\<lambda>s. ts_slot_type s = Fixed) (resp_timeline response))"
      by simp
    also have "\<dots> = map fixed_slot (filter (\<lambda>f. f = b) ?fixed)"
    proof -
      have "(fb_id f = fb_id b \<and> fb_title f = fb_title b \<and> fb_start_minute f = fb_start_minute b
              \<and> fb_end_minute f = fb_end_minute b) = (f = b)" for f
        by auto
      then show ?thesis unfolding fx by (simp add: filter_map o_def)
    qed
    finally have "length (filter (\<lambda>s. ts_slot_type s = Fixed \<and> ?P s) (resp_timeline response)) =
        length (filter (\<lambda>f. f = b) ?fixed)" by simp
    also have "\<dots> = card ({f. f = b} \<inter> set ?fixed)"
      by (rule distinct_length_filter [OF sorted_fixed_blocks_distinct [OF assms]])
    also have "{f. f = b} \<inter> set ?fixed = {b}"
      using b valid_request_sorted(4) [OF assms] by auto
    finally show ?thesis by simp
  qed
  from r fx one show ?thesis unfolding sorted_fixed_blocks_def by blast
qed

theorem fixed_blocks_kept_witness:
  "valid_request example_request \<and>
   (\<exists>response. build_day_timeline example_request = Inr response
      \<and> filter (\<lambda>s. ts_slot_type s = Fixed) (resp_timeline response) =
          [\<lparr>ts_slot_type = Fixed, ts_id = ''standup'', ts_title = ''Standup'',
            ts_start_minute = 540, ts_end_minute = 570, ts_category = None, ts_priority = None\<rparr>,
           \<lparr>ts_slot_type = Fixed, ts_id = ''lunch'', ts_title = ''Lunch'',
            ts_start_minute = 720, ts_end_minute = 780, ts_category = None, ts_priority = None\<rparr>]
      \<and> (\<forall>b\<in>set (req_fixed_blocks example_request).
            length (filter (\<lambda>s. ts_slot_type s = Fixed \<and> ts_id s = fb_id b \<and> ts_title s = fb_title b
                                 \<and> ts_start_minute s = fb_start_minute b
                                 \<and> ts_end_minute s = fb_end_minute b)
                      (resp_timeline response)) = 1))"
proof -
  have "map fixed_slot (sort_key fixed_block_key (req_fixed_blocks example_request)) =
          [\<lparr>ts_slot_type = Fixed, ts_id = ''standup'', ts_title = ''Standup'',
            ts_start_minute = 540, ts_end_minute = 570, ts_category = None, ts_priority = None\<rparr>,
           \<lparr>ts_slot_type = Fixed, ts_id = ''lunch'', ts_title = ''Lunch'',
            ts_start_minute = 720, ts_end_minute = 780, ts_category = None, ts_priority = None\<rparr>]"
    by code_simp
  with fixed_blocks_kept [OF example_request_valid] example_request_valid
  show ?thesis by auto
qed

section \<open>Accounting for every task\<close>

lemma assign_task_Some_bound:
  "largest_fitting_gap_index (as_available_gaps s) (ft_duration_minutes task) = Some i \<Longrightarrow>
   as_scheduled_tasks (assign_task task s) =
     as_scheduled_tasks s @ [bound_task task (as_available_gaps s ! i)]"
  by (simp add: assign_task_Some(2) bound_task_def)

lemma placement_signature_bound [simp]:
  "placement_signature (bound_task task gap) = task_signature task"
  by (simp add: placement_signature_def bound_task_def task_signature_def)

lemma assign_task_account:
  "image_mset placement_signature (mset (as_scheduled_tasks (assign_task task s))) +
   image_mset task_signature (mset (as_unscheduled_tasks (assign_task task s))) =
   image_mset placement_signature (mset (as_scheduled_tasks s)) +
   image_mset task_signature (mset (as_unscheduled_tasks s)) + {#task_signature task#}"
proof (cases "largest_fitting_gap_index (as_available_gaps s) (ft_duration_minutes task)")
  case None
  then show ?thesis by (simp add: assign_task_None)
next
  case (Some i)
  then show ?thesis by (simp add: assign_task_Some_bound assign_task_Some(3))
qed

lemma assign_tasks_account:
  "image_mset placement_signature (mset (as_scheduled_tasks (assign_tasks tasks s))) +
   image_mset task_signature (mset (as_unscheduled_tasks (assign_tasks tasks s))) =
   image_mset placement_signature (mset (as_scheduled_tasks s)) +
   image_mset task_signature (mset (as_unscheduled_tasks s)) + image_mset task_signature (mset tasks)"
proof (induction tasks arbitrary: s)
  case Nil
  show ?case by simp
next
  case (Cons t tasks)
  show ?case by (simp add: Cons.IH assign_task_account)
qed

lemma assign_task_unscheduled:
  "mset (as_unscheduled_tasks (assign_task task s)) \<subseteq># mset (as_unscheduled_tasks s) + {#task#}"
proof (cases "largest_fitting_gap_index (as_available_gaps s) (ft_duration_minutes task)")
  case None
  then show ?thesis by (simp add: assign_task_None)
next
  case (Some i)
  then show ?thesis by (simp add: assign_task_Some(3))
qed

lemma assign_tasks_unscheduled:
  "mset (as_unscheduled_tasks (assign_tasks tasks s)) \<subseteq># mset (as_unscheduled_tasks s) + mset tasks"
proof (induction tasks arbitrary: s)
  case Nil
  show ?case by simp
next
  case (Cons t tasks)
  have "mset (as_unscheduled_tasks (assign_tasks tasks (assign_task t s))) \<subseteq>#
        mset (as_unscheduled_tasks (assign_task t s)) + mset tasks"
    by (rule Cons.IH)
  also have "\<dots> \<subseteq># (mset (as_unscheduled_tasks s) + {#t#}) + mset tasks"
    using assign_task_unscheduled [of t s] by (simp add: subset_mset.add_mono)
  finally show ?case by (simp add: ac_simps)
qed

lemma assign_tasks_append:
  "assign_tasks (xs @ ys) s = assign_tasks ys (assign_tasks xs s)"
  by (induction xs arbitrary: s) simp_all

lemma state_after_Suc:
  "k < length (prioritized_tasks request) \<Longrightarrow>
   state_after request (Suc k) = assign_task (prioritized_tasks request ! k) (state_after request k)"
  by (simp add: state_after_def take_Suc_conv_app_nth assign_tasks_append)

lemma state_after_0:
  "state_after request 0 = initial_state (sorted_fixed_blocks request) request"
  by (simp add: state_after_def)

lemma state_after_scheduled_trace:
  "x \<in> set (as_scheduled_tasks (state_after request n)) \<Longrightarrow>
   \<exists>k<length (prioritized_tasks request). \<exists>i.
      largest_fitting_gap_index (as_available_gaps (state_after request k))
        (ft_duration_minutes (prioritized_tasks request ! k)) = Some i \<and>
      x = bound_task (prioritized_tasks request ! k) (as_available_gaps (state_after request k) ! i)"
proof (induction n)
  case 0
  then show ?case by (simp add: state_after_0 initial_state_def)
next
  case (Suc n)
  show ?case
  proof (cases "n < length (prioritized_tasks request)")
    case False
    then have "state_after request (Suc n) = state_after request n"
      by (simp add: state_after_def)
    with Suc show ?thesis by simp
  next
    case True
    let ?s = "state_after request n" and ?t = "prioritized_tasks request ! n"
    show ?thesis
    proof (cases "largest_fitting_gap_index (as_available_gaps ?s) (ft_duration_minutes ?t)")
      case None
      then have "as_scheduled_tasks (state_after request (Suc n)) = as_scheduled_tasks ?s"
        by (simp add: state_after_Suc [OF True] assign_task_None)
      with Suc show ?thesis by simp
    next
      case (Some i)
      from Suc.prems consider "x \<in> set (as_scheduled_tasks ?s)" | "x = bound_task ?t (as_available_gaps ?s ! i)"
        by (auto simp: state_after_Suc [OF True] assign_task_Some_bound [OF Some])
      then show ?thesis
      proof cases
        case 1
        then show ?thesis by (rule Suc.IH)
      next
        case 2
        with Some True show ?thesis by blast
      qed
    qed
  qed
qed

lemma response_account:
  "image_mset placement_signature (mset (as_scheduled_tasks (state_after request (length (prioritized_tasks request))))) +
   image_mset task_signature (mset (as_unscheduled_tasks (state_after request (length (prioritized_tasks request))))) =
   image_mset task_signature (mset (req_flexible_tasks request))"
  using assign_tasks_account [of "prioritized_tasks request" "initial_state (sorted_fixed_blocks request) request"]
  by (simp add: state_after_def initial_state_def prioritized_tasks_def)

lemma response_unscheduled:
  "mset (as_unscheduled_tasks (state_after request (length (prioritized_tasks request)))) \<subseteq>#
   mset (req_flexible_tasks request)"
  using assign_tasks_unscheduled [of "prioritized_tasks request" "initial_state (sorted_fixed_blocks request) request"]
  by (simp add: state_after_def initial_state_def prioritized_tasks_def)

text \<open>
  C6. For every valid request, every scheduled task of the response stems from a task of
  the request with the same id, title, category and priority, and lasts exactly that task's
  duration_minutes; it was bound, at some iteration of the task loop, to the start of the
  gap selected for it, that gap left the pool, and the remainder of the gap was appended to
  the pool as a new gap exactly when the task did not consume the gap.
\<close>

theorem scheduled_task_bound_to_selected_gap:
  assumes "valid_request request"
  shows "\<exists>response. build_day_timeline request = Inr response
           \<and> (\<forall>s\<in>set (resp_scheduled_tasks response). \<exists>t\<in>set (req_flexible_tasks request).
                 st_id s = ft_id t \<and> st_title s = ft_title t \<and> st_category s = ft_category t
               \<and> st_priority s = ft_priority t
               \<and> st_end_minute s - st_start_minute s = ft_duration_minutes t)
           \<and> (\<forall>s\<in>set (resp_scheduled_tasks response). \<exists>k<length (prioritized_tasks request). \<exists>i.
                 let pool = as_available_gaps (state_after request k);
                     task = prioritized_tasks request ! k;
                     gap = pool ! i
                 in largest_fitting_gap_index pool (ft_duration_minutes task) = Some i
                  \<and> s = bound_task task gap
                  \<and> st_start_minute s = iv_start gap
                  \<and> st_end_minute s = iv_start gap + ft_duration_minutes task
                  \<and> as_available_gaps (state_after request (Suc k)) =
                      take i pool @ drop (Suc i) pool @
                      (if ft_duration_minutes task \<noteq> duration gap
                       then [\<lparr>iv_start = iv_start gap + ft_duration_minutes task, iv_end = iv_end gap\<rparr>]
                       else []))"
proof -
  let ?n = "length (prioritized_tasks request)"
  from build_day_timeline_valid [OF assms]
  obtain response where r: "build_day_timeline request = Inr response"
    and s: "resp_scheduled_tasks response = sort_key st_start_minute (as_scheduled_tasks (state_after request ?n))"
    by auto
  have trace: "\<exists>k<?n. \<exists>i.
                 let pool = as_available_gaps (state_after request k);
                     task = prioritized_tasks request ! k;
                     gap = pool ! i
                 in largest_fitting_gap_index pool (ft_duration_minutes task) = Some i
                  \<and> x = bound_task task gap
                  \<and> st_start_minute x = iv_start gap
                  \<and> st_end_minute x = iv_start gap + ft_duration_minutes task
                  \<and> as_available_gaps (state_after request (Suc k)) =
                      take i pool @ drop (Suc i) pool @
                      (if ft_duration_minutes task \<noteq> duration gap
                       then [\<lparr>iv_start = iv_start gap + ft_duration_minutes task, iv_end = iv_end gap\<rparr>]
                       else [])"
    if "x \<in> set (resp_scheduled_tasks response)" for x
  proof -
    from that have "x \<in> set (as_scheduled_tasks (state_after request ?n))" unfolding s by simp
    from state_after_scheduled_trace [OF this]
    obtain k i where k: "k < ?n"
      and sel: "largest_fitting_gap_index (as_available_gaps (state_after request k))
                  (ft_duration_minutes (prioritized_tasks request ! k)) = Some i"
      and x: "x = bound_task (prioritized_tasks request ! k) (as_available_gaps (state_after request k) ! i)"
      by blast
    let ?pool = "as_available_gaps (state_after request k)"
    let ?task = "prioritized_tasks request ! k"
    have fit: "ft_duration_minutes ?task \<le> duration (?pool ! i)"
      by (rule largest_fitting_gap_index_Some(2) [OF sel])
    then have cond: "(iv_start (?pool ! i) + ft_duration_minutes ?task < iv_end (?pool ! i)) =
        (ft_duration_minutes ?task \<noteq> duration (?pool ! i))"
      by (auto simp: duration_def)
    have "as_available_gaps (state_after request (Suc k)) =
            take i ?pool @ drop (Suc i) ?pool @
            (if ft_duration_minutes ?task \<noteq> duration (?pool ! i)
             then [\<lparr>iv_start = iv_start (?pool ! i) + ft_duration_minutes ?task, iv_end = iv_end (?pool ! i)\<rparr>]
             else [])"
      unfolding state_after_Suc [OF k] assign_task_Some(1) [OF sel] cond ..
    with k sel x show ?thesis
      unfolding Let_def by (intro exI [of _ k] exI [of _ i]) (simp add: bound_task_def)
  qed
  have origin: "\<exists>t\<in>set (req_flexible_tasks request).
                 st_id x = ft_id t \<and> st_title x = ft_title t \<and> st_category x = ft_category t
               \<and> st_priority x = ft_priority t
               \<and> st_end_minute x - st_start_minute x = ft_duration_minutes t"
    if "x \<in> set (resp_scheduled_tasks response)" for x
  proof -
    from trace [OF that] obtain k i where k: "k < ?n"
      and x: "x = bound_task (prioritized_tasks request ! k) (as_available_gaps (state_after request k) ! i)"
      unfolding Let_def by blast
    from k have "prioritized_tasks request ! k \<in> set (prioritized_tasks request)" by (rule nth_mem)
    then have "prioritized_tasks request ! k \<in> set (req_flexible_tasks request)" by simp
    then show ?thesis using x by (auto simp: bound_task_def)
  qed
  from r trace origin show ?thesis by blast
qed

theorem scheduled_task_bound_to_selected_gap_witness:
  "valid_request example_request
   \<and> as_available_gaps (state_after example_request 0) =
       [\<lparr>iv_start = 0, iv_end = 525\<rparr>, \<lparr>iv_start = 585, iv_end = 705\<rparr>,
        \<lparr>iv_start = 795, iv_end = 1440\<rparr>]
   \<and> as_available_gaps (state_after example_request 1) =
       [\<lparr>iv_start = 0, iv_end = 525\<rparr>, \<lparr>iv_start = 585, iv_end = 705\<rparr>,
        \<lparr>iv_start = 915, iv_end = 1440\<rparr>]
   \<and> (\<exists>response. build_day_timeline example_request = Inr response
         \<and> length (resp_scheduled_tasks response) = 2
         \<and> (\<forall>s\<in>set (resp_scheduled_tasks response). \<exists>t\<in>set (req_flexible_tasks example_request).
               st_id s = ft_id t \<and> st_title s = ft_title t \<and> st_category s = ft_category t
             \<and> st_priority s = ft_priority t
             \<and> st_end_minute s - st_start_minute s = ft_duration_minutes t))"
proof -
  have g0: "as_available_gaps (state_after example_request 0) =
       [\<lparr>iv_start = 0, iv_end = 525\<rparr>, \<lparr>iv_start = 585, iv_end = 705\<rparr>,
        \<lparr>iv_start = 795, iv_end = 1440\<rparr>]"
    by code_simp
  have g1: "as_available_gaps (state_after example_request 1) =
       [\<lparr>iv_start = 0, iv_end = 525\<rparr>, \<lparr>iv_start = 585, iv_end = 705\<rparr>,
        \<lparr>iv_start = 915, iv_end = 1440\<rparr>]"
    by code_simp
  have len: "length (case build_day_timeline example_request of Inr x \<Rightarrow> resp_scheduled_tasks x | Inl e \<Rightarrow> []) = 2"
    by code_simp
  from scheduled_task_bound_to_selected_gap [OF example_request_valid]
  obtain response where r: "build_day_timeline example_request = Inr response"
    and p: "\<forall>s\<in>set (resp_scheduled_tasks response). \<exists>t\<in>set (req_flexible_tasks example_request).
               st_id s = ft_id t \<and> st_title s = ft_title t \<and> st_category s = ft_category t
             \<and> st_priority s = ft_priority t
             \<and> st_end_minute s - st_start_minute s = ft_duration_minutes t"
    by blast
  from r len have "length (resp_scheduled_tasks response) = 2" by simp
  with r p g0 g1 example_request_valid show ?thesis by blast
qed

lemma fst_placement_signature: "fst (placement_signature s) = st_id s"
  by (simp add: placement_signature_def)

lemma fst_task_signature: "fst (task_signature t) = ft_id t"
  by (simp add: task_signature_def)

lemma response_account_ids:
  "mset (map st_id (as_scheduled_tasks (state_after request (length (prioritized_tasks request))))) +
   mset (map ft_id (as_unscheduled_tasks (state_after request (length (prioritized_tasks request))))) =
   mset (map ft_id (req_flexible_tasks request))"
proof -
  have "image_mset fst
          (image_mset placement_signature (mset (as_scheduled_tasks (state_after request (length (prioritized_tasks request))))) +
           image_mset task_signature (mset (as_unscheduled_tasks (state_after request (length (prioritized_tasks request)))))) =
        image_mset fst (image_mset task_signature (mset (req_flexible_tasks request)))"
    by (simp only: response_account)
  then show ?thesis
    by (simp add: multiset.map_comp o_def fst_placement_signature fst_task_signature)
qed

text \<open>
  C7, as the code has it. For every valid request, the ids of the scheduled tasks together
  with the ids of the unscheduled tasks are, with multiplicity, the ids of the request's
  tasks, and the unscheduled tasks are tasks of the request, unchanged. When the ids of the
  request's tasks are pairwise distinct, the id of each task appears in exactly one of the
  two lists. A task for which no gap fits at its turn is appended to the unscheduled
  tasks, pool and scheduled tasks stay as they are, and the loop goes on.
\<close>

theorem every_task_lands_in_one_list:
  assumes "valid_request request"
  shows "\<exists>response. build_day_timeline request = Inr response
           \<and> mset (map st_id (resp_scheduled_tasks response)) +
               mset (map ft_id (resp_unscheduled_tasks response)) =
               mset (map ft_id (req_flexible_tasks request))
           \<and> mset (resp_unscheduled_tasks response) \<subseteq># mset (req_flexible_tasks request)
           \<and> (distinct (map ft_id (req_flexible_tasks request)) \<longrightarrow>
                (\<forall>t\<in>set (req_flexible_tasks request). appears_in_exactly_one response t))
           \<and> (\<forall>k<length (prioritized_tasks request).
                 largest_fitting_gap_index (as_available_gaps (state_after request k))
                   (ft_duration_minutes (prioritized_tasks request ! k)) = None \<longrightarrow>
                 state_after request (Suc k) =
                   (state_after request k)
                     \<lparr>as_unscheduled_tasks :=
                        as_unscheduled_tasks (state_after request k) @ [prioritized_tasks request ! k]\<rparr>)"
proof -
  let ?n = "length (prioritized_tasks request)"
  from build_day_timeline_valid [OF assms]
  obtain response where r: "build_day_timeline request = Inr response"
    and s: "resp_scheduled_tasks response = sort_key st_start_minute (as_scheduled_tasks (state_after request ?n))"
    and u: "resp_unscheduled_tasks response = as_unscheduled_tasks (state_after request ?n)"
    by auto
  have "mset (map st_id (resp_scheduled_tasks response)) = mset (map st_id (as_scheduled_tasks (state_after request ?n)))"
    unfolding s by simp
  then have ids: "mset (map st_id (resp_scheduled_tasks response)) +
               mset (map ft_id (resp_unscheduled_tasks response)) =
               mset (map ft_id (req_flexible_tasks request))"
    unfolding u by (simp only: response_account_ids)
  have sub: "mset (resp_unscheduled_tasks response) \<subseteq># mset (req_flexible_tasks request)"
    unfolding u by (rule response_unscheduled)
  have one: "appears_in_exactly_one response t"
    if d: "distinct (map ft_id (req_flexible_tasks request))" and t: "t \<in> set (req_flexible_tasks request)" for t
  proof -
    from t have "ft_id t \<in> set (map ft_id (req_flexible_tasks request))" by simp
    with d have "count (mset (map ft_id (req_flexible_tasks request))) (ft_id t) = 1"
      by (simp only: distinct_count_atmost_1 if_True)
    then have "count (mset (map st_id (resp_scheduled_tasks response))) (ft_id t) +
               count (mset (map ft_id (resp_unscheduled_tasks response))) (ft_id t) = 1"
      unfolding ids [symmetric] by (simp only: count_union)
    then have "(count (mset (map st_id (resp_scheduled_tasks response))) (ft_id t) > 0) \<noteq>
               (count (mset (map ft_id (resp_unscheduled_tasks response))) (ft_id t) > 0)"
      by linarith
    then show ?thesis
      unfolding appears_in_exactly_one_def count_greater_zero_iff set_mset_mset by blast
  qed
  have miss: "state_after request (Suc k) =
                   (state_after request k)
                     \<lparr>as_unscheduled_tasks :=
                        as_unscheduled_tasks (state_after request k) @ [prioritized_tasks request ! k]\<rparr>"
    if "k < ?n" "largest_fitting_gap_index (as_available_gaps (state_after request k))
                   (ft_duration_minutes (prioritized_tasks request ! k)) = None" for k
    using that by (simp add: state_after_Suc assign_task_None)
  from r ids sub one miss show ?thesis by blast
qed

theorem every_task_lands_in_one_list_witness:
  "valid_request example_request
   \<and> distinct (map ft_id (req_flexible_tasks example_request))
   \<and> largest_fitting_gap_index (as_available_gaps (state_after example_request 2))
       (ft_duration_minutes (prioritized_tasks example_request ! 2)) = None
   \<and> (\<exists>response. build_day_timeline example_request = Inr response
         \<and> map st_id (resp_scheduled_tasks response) = [''review'', ''write'']
         \<and> map ft_id (resp_unscheduled_tasks response) = [''gym'']
         \<and> (\<forall>t\<in>set (req_flexible_tasks example_request). appears_in_exactly_one response t))"
proof -
  have d: "distinct (map ft_id (req_flexible_tasks example_request))" by code_simp
  have n: "largest_fitting_gap_index (as_available_gaps (state_after example_request 2))
       (ft_duration_minutes (prioritized_tasks example_request ! 2)) = None"
    by code_simp
  have ids: "(case build_day_timeline example_request of
               Inr x \<Rightarrow> (map st_id (resp_scheduled_tasks x), map ft_id (resp_unscheduled_tasks x))
             | Inl e \<Rightarrow> ([], [])) = ([''review'', ''write''], [''gym''])"
    by code_simp
  from every_task_lands_in_one_list [OF example_request_valid] d
  obtain response where r: "build_day_timeline example_request = Inr response"
    and p: "\<forall>t\<in>set (req_flexible_tasks example_request). appears_in_exactly_one response t"
    by blast
  from r ids have "map st_id (resp_scheduled_tasks response) = [''review'', ''write'']"
    "map ft_id (resp_unscheduled_tasks response) = [''gym'']" by simp_all
  with r p d n example_request_valid show ?thesis by (intro conjI exI [of _ response])
qed

text \<open>
  C7, as stated, fails when two tasks of a valid request share an id: the first is
  scheduled, the second is not, and the id appears in both lists.
\<close>

theorem task_id_in_both_lists_counterexample:
  "valid_request duplicate_id_request
   \<and> build_day_timeline duplicate_id_request =
       Inr \<lparr>resp_day_start_minute = 0, resp_day_end_minute = 1440,
            resp_transition_buffer_minutes = 15,
            resp_timeline =
              [\<lparr>ts_slot_type = Task, ts_id = ''a'', ts_title = ''Deep work'',
                ts_start_minute = 0, ts_end_minute = 1440,
                ts_category = Some ''work'', ts_priority = Some 1\<rparr>],
            resp_scheduled_tasks =
              [\<lparr>st_id = ''a'', st_title = ''Deep work'', st_category = ''work'', st_priority = 1,
                st_start_minute = 0, st_end_minute = 1440\<rparr>],
            resp_unscheduled_tasks =
              [\<lparr>ft_id = ''a'', ft_title = ''Workout'', ft_duration_minutes = 60, ft_priority = 2,
                ft_category = ''health''\<rparr>]\<rparr>
   \<and> \<not> appears_in_exactly_one (projr (build_day_timeline duplicate_id_request))
         (hd (req_flexible_tasks duplicate_id_request))"
  by code_simp

section \<open>The tie-break among the largest gaps\<close>

lemma earliest_start_if_sorted:
  assumes "sorted (map iv_start gaps)"
  shows "earliest_start_selected gaps d"
proof (cases "largest_fitting_gap_index gaps d")
  case None
  then show ?thesis by (simp add: earliest_start_selected_def)
next
  case (Some i)
  note sel = largest_fitting_gap_index_Some [OF Some]
  have "iv_start (gaps ! i) \<le> iv_start (gaps ! j)"
    if j: "j < length gaps" and eq: "duration (gaps ! j) = duration (gaps ! i)" for j
  proof (cases "j < i")
    case True
    with sel(2,4) eq show ?thesis by auto
  next
    case False
    then have "i \<le> j" by simp
    from sorted_nth_mono [OF assms this] j sel(1) show ?thesis by simp
  qed
  then have "\<forall>g\<in>set gaps. duration g = duration (gaps ! i) \<longrightarrow> iv_start (gaps ! i) \<le> iv_start g"
    by (metis in_set_conv_nth)
  then show ?thesis using Some by (simp add: earliest_start_selected_def list_all_iff)
qed

lemma initial_pool_sorted:
  assumes "valid_request request"
  shows "sorted (map iv_start (as_available_gaps (state_after request 0)))"
proof -
  from assms have b: "0 \<le> req_transition_buffer_minutes request"
    by (simp add: valid_request_def DayScheduleRequest_valid_def)
  note p = available_gaps_props [OF valid_request_sorted(3) [OF assms] b]
  let ?gaps = "available_gaps (sorted_fixed_blocks request) (req_transition_buffer_minutes request)"
  have "sorted_wrt (\<lambda>g h. iv_start g \<le> iv_start h) ?gaps"
  proof (rule sorted_wrt_set_mono [OF p(2)])
    fix g h assume "g \<in> set ?gaps" "h \<in> set ?gaps" "iv_end g \<le> iv_start h"
    with p(1) show "iv_start g \<le> iv_start h" by (auto simp: in_day_def)
  qed
  then show ?thesis
    by (simp add: state_after_0 initial_state_def sorted_map_key_wrt)
qed

text \<open>
  C2, as the code has it. Among the gaps that fit, the one of maximum duration that comes
  first in the pool is selected: every fitting gap is at most as long as the selected one,
  and every fitting gap before it in the pool is strictly shorter. When the pool is ordered
  by start, as the initial pool of a valid request is, this is the gap with the earliest
  start among those of maximum duration.
\<close>

theorem largest_gap_first_in_pool_selected:
  "(largest_fitting_gap_index gaps d = None \<longleftrightarrow> (\<forall>g\<in>set gaps. duration g < d))
   \<and> (\<forall>i. largest_fitting_gap_index gaps d = Some i \<longrightarrow>
          i < length gaps \<and> d \<le> duration (gaps ! i)
        \<and> (\<forall>j<length gaps. d \<le> duration (gaps ! j) \<longrightarrow> duration (gaps ! j) \<le> duration (gaps ! i))
        \<and> (\<forall>j<i. d \<le> duration (gaps ! j) \<longrightarrow> duration (gaps ! j) < duration (gaps ! i)))
   \<and> (sorted (map iv_start gaps) \<longrightarrow> earliest_start_selected gaps d)
   \<and> (valid_request request \<longrightarrow>
         earliest_start_selected (as_available_gaps (state_after request 0)) d)"
proof -
  have "\<forall>i. largest_fitting_gap_index gaps d = Some i \<longrightarrow>
          i < length gaps \<and> d \<le> duration (gaps ! i)
        \<and> (\<forall>j<length gaps. d \<le> duration (gaps ! j) \<longrightarrow> duration (gaps ! j) \<le> duration (gaps ! i))
        \<and> (\<forall>j<i. d \<le> duration (gaps ! j) \<longrightarrow> duration (gaps ! j) < duration (gaps ! i))"
    using largest_fitting_gap_index_Some [of gaps d] by blast
  moreover have "valid_request request \<longrightarrow>
         earliest_start_selected (as_available_gaps (state_after request 0)) d"
    using initial_pool_sorted earliest_start_if_sorted by blast
  ultimately show ?thesis
    using largest_fitting_gap_index_None [of gaps d] earliest_start_if_sorted [of gaps d] by blast
qed

theorem largest_gap_first_in_pool_selected_witness:
  "sorted (map iv_start [\<lparr>iv_start = 0, iv_end = 100\<rparr>, \<lparr>iv_start = 500, iv_end = 600\<rparr>])
   \<and> earliest_start_selected [\<lparr>iv_start = 0, iv_end = 100\<rparr>, \<lparr>iv_start = 500, iv_end = 600\<rparr>] 100
   \<and> largest_fitting_gap_index [\<lparr>iv_start = 0, iv_end = 100\<rparr>, \<lparr>iv_start = 500, iv_end = 600\<rparr>] 100 = Some 0
   \<and> as_scheduled_tasks
       (assign_task
          \<lparr>ft_id = ''t'', ft_title = ''Task'', ft_duration_minutes = 100, ft_priority = 1,
            ft_category = ''work''\<rparr>
          \<lparr>as_available_gaps = [\<lparr>iv_start = 0, iv_end = 100\<rparr>, \<lparr>iv_start = 500, iv_end = 600\<rparr>],
            as_scheduled_tasks = [], as_unscheduled_tasks = []\<rparr>) =
       [\<lparr>st_id = ''t'', st_title = ''Task'', st_category = ''work'', st_priority = 1,
         st_start_minute = 0, st_end_minute = 100\<rparr>]
   \<and> valid_request leftover_tie_request
   \<and> earliest_start_selected (as_available_gaps (state_after leftover_tie_request 0)) 200"
proof -
  let ?gaps = "[\<lparr>iv_start = 0, iv_end = 100\<rparr>, \<lparr>iv_start = 500, iv_end = 600\<rparr>]"
  have s: "sorted (map iv_start ?gaps)" by simp
  have v: "valid_request leftover_tie_request" by code_simp
  have i: "largest_fitting_gap_index ?gaps 100 = Some 0" by code_simp
  have a: "as_scheduled_tasks
       (assign_task
          \<lparr>ft_id = ''t'', ft_title = ''Task'', ft_duration_minutes = 100, ft_priority = 1,
            ft_category = ''work''\<rparr>
          \<lparr>as_available_gaps = ?gaps, as_scheduled_tasks = [], as_unscheduled_tasks = []\<rparr>) =
       [\<lparr>st_id = ''t'', st_title = ''Task'', st_category = ''work'', st_priority = 1,
         st_start_minute = 0, st_end_minute = 100\<rparr>]"
    by code_simp
  from largest_gap_first_in_pool_selected [of ?gaps 100 leftover_tie_request] s
  have e1: "earliest_start_selected ?gaps 100" by blast
  from largest_gap_first_in_pool_selected [of ?gaps 200 leftover_tie_request] v
  have e2: "earliest_start_selected (as_available_gaps (state_after leftover_tie_request 0)) 200" by blast
  from s e1 i a v e2 show ?thesis by (intro conjI)
qed

text \<open>
  C2, as stated, fails on a pool that holds a leftover: after the first task the pool is
  \<open>[500, 600), [200, 300)\<close>, both gaps fit the second task and have the maximum duration, and
  the gap selected is \<open>[500, 600)\<close>, not the one with the earliest start.
\<close>

theorem leftover_tie_counterexample:
  "valid_request leftover_tie_request
   \<and> as_available_gaps (state_after leftover_tie_request 1) =
       [\<lparr>iv_start = 500, iv_end = 600\<rparr>, \<lparr>iv_start = 200, iv_end = 300\<rparr>]
   \<and> ft_duration_minutes (prioritized_tasks leftover_tie_request ! 1) = 100
   \<and> largest_fitting_gap_index (as_available_gaps (state_after leftover_tie_request 1)) 100 = Some 0
   \<and> \<not> earliest_start_selected (as_available_gaps (state_after leftover_tie_request 1)) 100
   \<and> resp_scheduled_tasks (projr (build_day_timeline leftover_tie_request)) =
       [\<lparr>st_id = ''t1'', st_title = ''First'', st_category = ''work'', st_priority = 1,
         st_start_minute = 0, st_end_minute = 200\<rparr>,
        \<lparr>st_id = ''t2'', st_title = ''Second'', st_category = ''work'', st_priority = 1,
         st_start_minute = 500, st_end_minute = 600\<rparr>]"
  by code_simp

section \<open>One fixed block and a buffer\<close>

text \<open>
  C3, as the code has it. For the single fixed block 540-570 with buffer 15 and no tasks,
  the timeline is free 0-540, fixed 540-570, free 570-1440: the fixed slot keeps its
  bounds and the free slots are what the fixed block leaves of the day. The buffered gaps
  \<open>[0, 525)\<close> and \<open>[585, 1440)\<close> are the pool that the tasks are placed in.
\<close>

theorem standup_timeline:
  "build_day_timeline standup_request =
     Inr \<lparr>resp_day_start_minute = 0, resp_day_end_minute = 1440,
          resp_transition_buffer_minutes = 15,
          resp_timeline =
            [\<lparr>ts_slot_type = Free, ts_id = ''free-0-540'', ts_title = ''Free'',
              ts_start_minute = 0, ts_end_minute = 540, ts_category = None, ts_priority = None\<rparr>,
             \<lparr>ts_slot_type = Fixed, ts_id = ''standup'', ts_title = ''Standup'',
              ts_start_minute = 540, ts_end_minute = 570, ts_category = None, ts_priority = None\<rparr>,
             \<lparr>ts_slot_type = Free, ts_id = ''free-570-1440'', ts_title = ''Free'',
              ts_start_minute = 570, ts_end_minute = 1440, ts_category = None, ts_priority = None\<rparr>],
          resp_scheduled_tasks = [], resp_unscheduled_tasks = []\<rparr>
   \<and> free_slots (resp_timeline (projr (build_day_timeline standup_request))) = [(0, 540), (570, 1440)]
   \<and> available_gaps (sorted_fixed_blocks standup_request)
         (req_transition_buffer_minutes standup_request) =
       [\<lparr>iv_start = 0, iv_end = 525\<rparr>, \<lparr>iv_start = 585, iv_end = 1440\<rparr>]"
  by code_simp

text \<open>
  C3, as stated, fails: the free slots of the returned timeline are not the buffered gaps
  \<open>[0, 525)\<close> and \<open>[585, 1440)\<close>.
\<close>

theorem standup_free_slots_counterexample:
  "valid_request standup_request
   \<and> free_slots (resp_timeline (projr (build_day_timeline standup_request))) = [(0, 540), (570, 1440)]
   \<and> free_slots (resp_timeline (projr (build_day_timeline standup_request))) \<noteq> [(0, 525), (585, 1440)]"
  by code_simp

section \<open>Non-overlapping blocks are the blocks that pass the check\<close>

lemma no_overlap_at_successively:
  "(\<forall>i. \<not> overlap_at bs i) \<longleftrightarrow> successively (\<lambda>a b. fb_end_minute a \<le> fb_start_minute b) bs"
proof (induction bs rule: check_adjacent.induct)
  case (1 p c rest)
  have "(\<forall>i. \<not> overlap_at (p # c # rest) i) \<longleftrightarrow>
        \<not> overlap_at (p # c # rest) 0 \<and> (\<forall>i. \<not> overlap_at (c # rest) i)"
    by (metis overlap_at_Cons_Suc not0_implies_Suc)
  then show ?case using 1 by (auto simp: overlap_at_0 not_less)
qed (simp_all add: overlap_at_short)

lemma non_overlapping_iff_check_passes:
  assumes valid: "list_all FixedBlock_valid blocks"
  shows "non_overlapping blocks \<longleftrightarrow>
         sorted_non_overlapping_fixed_blocks blocks = Inr (sort_key fixed_block_key blocks)"
proof
  assume "non_overlapping blocks"
  from sorted_blocks_chain [OF valid this]
  have "check_adjacent (sort_key fixed_block_key blocks) = None"
    by (simp add: check_adjacent_None chain_no_overlap_at)
  then show "sorted_non_overlapping_fixed_blocks blocks = Inr (sort_key fixed_block_key blocks)"
    by (simp add: sorted_non_overlapping_fixed_blocks_def)
next
  let ?sb = "sort_key fixed_block_key blocks"
  assume "sorted_non_overlapping_fixed_blocks blocks = Inr ?sb"
  then have "check_adjacent ?sb = None"
    by (simp add: sorted_non_overlapping_fixed_blocks_def Let_def split: option.splits)
  then have succ: "successively (\<lambda>a b. fb_end_minute a \<le> fb_start_minute b) ?sb"
    by (simp add: check_adjacent_None no_overlap_at_successively)
  have v: "\<And>x. x \<in> set ?sb \<Longrightarrow> fb_start_minute x < fb_end_minute x"
    using valid by (auto simp: list_all_iff FixedBlock_valid_def)
  have "sorted_wrt (\<lambda>a b. fb_end_minute a \<le> fb_start_minute b) ?sb"
  proof (subst successively_iff_sorted_wrt_strong [symmetric])
    fix x y z assume "x \<in> set ?sb" "y \<in> set ?sb" "z \<in> set ?sb"
      "fb_end_minute x \<le> fb_start_minute y" "fb_end_minute y \<le> fb_start_minute z"
    with v [of y] show "fb_end_minute x \<le> fb_start_minute z" by simp
  qed (rule succ)
  then have "sorted_wrt blocks_disjoint ?sb"
    by (rule sorted_wrt_mono_rel [rotated]) (simp add: blocks_disjoint_def)
  then show "non_overlapping blocks"
    unfolding non_overlapping_def
    by (subst (asm) sorted_wrt_sort_key_sym) (auto simp: blocks_disjoint_def)
qed

end
